theory Spec2Isabelle
  imports Main "HOL-Library.Word" "HOL-Library.AList"
begin

section \<open>Persistence scheduler (src/src/persistence.ts)\<close>

text \<open>
  A \<^verbatim>\<open>Uint8Array\<close> is a list of bytes.  The process environment is the record of the
  four variables the module reads; a variable that is not set is \<open>None\<close>.
\<close>

type_synonym bytes = "8 word list"

record env =
  CLOUDFLARE_ACCOUNT_ID :: "string option"
  R2_ACCESS_KEY_ID :: "string option"
  R2_SECRET_ACCESS_KEY :: "string option"
  R2_BUCKET_NAME :: "string option"

text \<open>JavaScript's \<^verbatim>\<open>!v\<close> on a string that may be undefined: true when it is undefined or empty.\<close>

definition falsy :: "string option \<Rightarrow> bool" where
  "falsy v = (case v of None \<Rightarrow> True | Some s \<Rightarrow> s = [])"

record S3Client =
  endpoint :: string
  accessKeyId :: string
  secretAccessKey :: string

definition getS3Client :: "env \<Rightarrow> S3Client option" where
  "getS3Client e =
     (case (CLOUDFLARE_ACCOUNT_ID e, R2_ACCESS_KEY_ID e, R2_SECRET_ACCESS_KEY e) of
        (Some accountId, Some keyId, Some secret) \<Rightarrow>
          if falsy (Some accountId) \<or> falsy (Some keyId) \<or> falsy (Some secret) then None
          else Some \<lparr>endpoint = ''https://'' @ accountId @ ''.r2.cloudflarestorage.com'',
                     accessKeyId = keyId, secretAccessKey = secret\<rparr>
      | _ \<Rightarrow> None)"

definition BUCKET_NAME :: "env \<Rightarrow> string" where
  "BUCKET_NAME e = (case R2_BUCKET_NAME e of None \<Rightarrow> ''write''
                    | Some b \<Rightarrow> if b = [] then ''write'' else b)"

definition SAVE_DEBOUNCE_MS :: nat where
  "SAVE_DEBOUNCE_MS = 2000"

text \<open>\<^verbatim>\<open>roomId.split(':')\<close>: the pieces between the colons (one piece, possibly empty, when
  there is no colon).\<close>

fun split_colon :: "string \<Rightarrow> string list" where
  "split_colon [] = [[]]"
| "split_colon (c # cs) =
     (if c = CHR '':'' then [] # split_colon cs
      else (case split_colon cs of [] \<Rightarrow> [[c]] | p # ps \<Rightarrow> (c # p) # ps))"

text \<open>\<^verbatim>\<open>const [bookId, chapterId] = roomId.split(':')\<close>: a missing piece is undefined, which
  the template string prints as \<^verbatim>\<open>undefined\<close>.\<close>

definition getStateKey :: "string \<Rightarrow> string" where
  "getStateKey roomId =
     (let parts = split_colon roomId;
          bookId = (case parts of b # _ \<Rightarrow> b | [] \<Rightarrow> ''undefined'');
          chapterId = (case parts of _ # c # _ \<Rightarrow> c | _ \<Rightarrow> ''undefined'')
      in ''collab/'' @ bookId @ ''/'' @ chapterId @ ''/state.yjs'')"

text \<open>
  The object store is an external collaborator.  Its state is the objects it holds, by
  bucket and key; \<open>outage\<close> says that every request is rejected; \<open>s3log\<close> records the
  commands the module has sent, in order, so that "no storage I/O" and "exactly one
  write" are statements about this list.
\<close>

datatype s3cmd =
    PutObjectCommand string string bytes
  | GetObjectCommand string string
  | DeleteObjectCommand string string

text \<open>
  A timer of the runtime (\<^verbatim>\<open>setTimeout\<close>) holds the time it is due and the closure it
  runs.  The only closure the module passes is the one of \<^verbatim>\<open>scheduleSave\<close>, which
  captures \<^verbatim>\<open>roomId\<close> and \<^verbatim>\<open>getState\<close>; the getter reads the heap \<open>'h\<close> of the caller at
  the moment it is called.
\<close>

record 'h timer =
  due :: nat
  roomOf :: string
  getter :: "'h \<Rightarrow> bytes"

record 'h pstate =
  penv :: env
  objects :: "string \<times> string \<Rightarrow> bytes option"
  outage :: bool
  s3log :: "s3cmd list"
  saveTimers :: "string \<Rightarrow> nat option"
  timeouts :: "(nat \<times> 'h timer) list"
  nextTimeout :: nat
  clock :: nat

definition pstate0 :: "env \<Rightarrow> 'h pstate" where
  "pstate0 e = \<lparr>penv = e, objects = (\<lambda>_. None), outage = False, s3log = [],
                saveTimers = (\<lambda>_. None), timeouts = [], nextTimeout = 0, clock = 0\<rparr>"

definition persistState :: "string \<Rightarrow> bytes \<Rightarrow> 'h pstate \<Rightarrow> 'h pstate" where
  "persistState roomId state p =
     (case getS3Client (penv p) of
        None \<Rightarrow> p
      | Some s3 \<Rightarrow>
          (let key = getStateKey roomId;
               b = BUCKET_NAME (penv p);
               p1 = p\<lparr>s3log := s3log p @ [PutObjectCommand b key state]\<rparr>
           in if outage p then p1
              else p1\<lparr>objects := (objects p1)((b, key) \<mapsto> state)\<rparr>))"

definition loadState :: "string \<Rightarrow> 'h pstate \<Rightarrow> bytes option \<times> 'h pstate" where
  "loadState roomId p =
     (case getS3Client (penv p) of
        None \<Rightarrow> (None, p)
      | Some s3 \<Rightarrow>
          (let key = getStateKey roomId;
               b = BUCKET_NAME (penv p);
               p1 = p\<lparr>s3log := s3log p @ [GetObjectCommand b key]\<rparr>
           in if outage p then (None, p1)
              else (case objects p (b, key) of
                      Some body \<Rightarrow> (Some body, p1)
                    | None \<Rightarrow> (None, p1))))"

definition deleteState :: "string \<Rightarrow> 'h pstate \<Rightarrow> 'h pstate" where
  "deleteState roomId p =
     (case getS3Client (penv p) of
        None \<Rightarrow> p
      | Some s3 \<Rightarrow>
          (let key = getStateKey roomId;
               b = BUCKET_NAME (penv p);
               p1 = p\<lparr>s3log := s3log p @ [DeleteObjectCommand b key]\<rparr>
           in if outage p then p1
              else p1\<lparr>objects := (objects p1)((b, key) := None)\<rparr>))"

definition setTimeout ::
  "string \<Rightarrow> ('h \<Rightarrow> bytes) \<Rightarrow> nat \<Rightarrow> 'h pstate \<Rightarrow> nat \<times> 'h pstate" where
  "setTimeout roomId getState delay p =
     (nextTimeout p,
      p\<lparr>timeouts := timeouts p @
            [(nextTimeout p, \<lparr>due = clock p + delay, roomOf = roomId, getter = getState\<rparr>)],
        nextTimeout := Suc (nextTimeout p)\<rparr>)"

definition clearTimeout :: "nat \<Rightarrow> 'h pstate \<Rightarrow> 'h pstate" where
  "clearTimeout t p = p\<lparr>timeouts := filter (\<lambda>x. fst x \<noteq> t) (timeouts p)\<rparr>"

definition scheduleSave :: "string \<Rightarrow> ('h \<Rightarrow> bytes) \<Rightarrow> 'h pstate \<Rightarrow> 'h pstate" where
  "scheduleSave roomId getState p =
     (let p1 = (case saveTimers p roomId of
                  Some existingTimer \<Rightarrow> clearTimeout existingTimer p
                | None \<Rightarrow> p);
          (t, p2) = setTimeout roomId getState SAVE_DEBOUNCE_MS p1
      in p2\<lparr>saveTimers := (saveTimers p2)(roomId \<mapsto> t)\<rparr>)"

text \<open>The body of the closure \<^verbatim>\<open>scheduleSave\<close> hands to \<^verbatim>\<open>setTimeout\<close>.\<close>

definition saveTimerCallback ::
  "string \<Rightarrow> ('h \<Rightarrow> bytes) \<Rightarrow> 'h \<Rightarrow> 'h pstate \<Rightarrow> 'h pstate" where
  "saveTimerCallback roomId getState h p =
     (let p1 = p\<lparr>saveTimers := (saveTimers p)(roomId := None)\<rparr>;
          state = getState h
      in if length state > 0 then persistState roomId state p1 else p1)"

definition cancelPendingSave :: "string \<Rightarrow> 'h pstate \<Rightarrow> 'h pstate" where
  "cancelPendingSave roomId p =
     (case saveTimers p roomId of
        Some t \<Rightarrow> (clearTimeout t p)\<lparr>saveTimers := (saveTimers p)(roomId := None)\<rparr>
      | None \<Rightarrow> p)"

definition forceSave :: "string \<Rightarrow> ('h \<Rightarrow> bytes) \<Rightarrow> 'h \<Rightarrow> 'h pstate \<Rightarrow> 'h pstate" where
  "forceSave roomId getState h p =
     (let p1 = cancelPendingSave roomId p;
          state = getState h
      in if length state > 0 then persistState roomId state p1 else p1)"

text \<open>\<^verbatim>\<open>saveAllPending\<close>: the loop over the map of getters, in the map's order.  Each
  \<^verbatim>\<open>persistState\<close> call sends its command before the loop goes on.\<close>

fun saveAllPending ::
  "(string \<times> ('h \<Rightarrow> bytes)) list \<Rightarrow> 'h \<Rightarrow> 'h pstate \<Rightarrow> 'h pstate" where
  "saveAllPending [] h p = p"
| "saveAllPending ((roomId, getState) # ds) h p =
     saveAllPending ds h (persistState roomId (getState h) (cancelPendingSave roomId p))"

definition isPersistenceAvailable :: "'h pstate \<Rightarrow> bool" where
  "isPersistenceAvailable p = (getS3Client (penv p) \<noteq> None)"

text \<open>
  The runtime runs a timer that is still active: it leaves the runtime's table and its
  closure is called.  \<open>advance d\<close> lets \<open>d\<close> milliseconds pass and runs every timer that
  is due by then, in the order they were created (all timers of the module have the same
  delay, so this is the order they are due).
\<close>

definition fireTimeout :: "nat \<Rightarrow> 'h \<Rightarrow> 'h pstate \<Rightarrow> 'h pstate" where
  "fireTimeout t h p =
     (case map_of (timeouts p) t of
        None \<Rightarrow> p
      | Some tm \<Rightarrow> saveTimerCallback (roomOf tm) (getter tm) h (clearTimeout t p))"

definition fireAll :: "(nat \<times> 'h timer) list \<Rightarrow> 'h \<Rightarrow> 'h pstate \<Rightarrow> 'h pstate" where
  "fireAll ts h p = fold (\<lambda>x q. fireTimeout (fst x) h q) ts p"

definition advance :: "nat \<Rightarrow> 'h \<Rightarrow> 'h pstate \<Rightarrow> 'h pstate" where
  "advance d h p =
     (let p1 = p\<lparr>clock := clock p + d\<rparr>
      in fireAll (filter (\<lambda>x. due (snd x) \<le> clock p1) (timeouts p1)) h p1)"

subsection \<open>Runs of the scheduler and what is observed of them\<close>

text \<open>
  The commands \<^verbatim>\<open>persistState\<close> sends for a room and a snapshot: one \<^verbatim>\<open>PutObjectCommand\<close>
  when the client is configured, none otherwise.
\<close>

definition puts :: "string \<Rightarrow> bytes \<Rightarrow> env \<Rightarrow> s3cmd list" where
  "puts roomId state e =
     (if getS3Client e = None then []
      else [PutObjectCommand (BUCKET_NAME e) (getStateKey roomId) state])"

text \<open>The bodies written under the storage key of a room, in the order they were sent.\<close>

definition writesTo :: "string \<Rightarrow> s3cmd list \<Rightarrow> bytes list" where
  "writesTo roomId cmds =
     concat (map (\<lambda>c. case c of
                        PutObjectCommand b k body \<Rightarrow> if k = getStateKey roomId then [body] else []
                      | _ \<Rightarrow> []) cmds)"

text \<open>The timers of the runtime that are still active and whose closure is the save of a room.\<close>

definition pendingFor :: "string \<Rightarrow> 'h pstate \<Rightarrow> (nat \<times> 'h timer) list" where
  "pendingFor roomId p = filter (\<lambda>x. roomOf (snd x) = roomId) (timeouts p)"

text \<open>
  The invariant of the timer map: the active timers have distinct handles, each active
  timer is the entry of its room in \<^verbatim>\<open>saveTimers\<close>, and each entry of \<^verbatim>\<open>saveTimers\<close> is an
  active timer of that room.
\<close>

definition timers_inv :: "'h pstate \<Rightarrow> bool" where
  "timers_inv p =
     (distinct (map fst (timeouts p)) \<and>
      (\<forall>x \<in> set (timeouts p). fst x < nextTimeout p \<and> saveTimers p (roomOf (snd x)) = Some (fst x)) \<and>
      (\<forall>r t. saveTimers p r = Some t \<longrightarrow> (\<exists>tm. (t, tm) \<in> set (timeouts p) \<and> roomOf tm = r)))"

text \<open>What the closure of a timer sends when it runs on heap \<open>h\<close>.\<close>

definition fired :: "'h \<Rightarrow> env \<Rightarrow> nat \<times> 'h timer \<Rightarrow> s3cmd list" where
  "fired h e x = (if getter (snd x) h = [] then [] else puts (roomOf (snd x)) (getter (snd x) h) e)"

text \<open>
  The operations a caller or the runtime can perform on the module, as events on the pair
  of the caller's heap and the module's state.
\<close>

datatype 'h pevent =
    EvScheduleSave string "'h \<Rightarrow> bytes"
  | EvCancelPendingSave string
  | EvForceSave string "'h \<Rightarrow> bytes"
  | EvSaveAllPending "(string \<times> ('h \<Rightarrow> bytes)) list"
  | EvAdvance nat
  | EvPersistState string bytes
  | EvLoadState string
  | EvDeleteState string
  | EvHeap "'h \<Rightarrow> 'h"

fun pstep :: "'h pevent \<Rightarrow> 'h \<times> 'h pstate \<Rightarrow> 'h \<times> 'h pstate" where
  "pstep (EvScheduleSave r g) (h, p) = (h, scheduleSave r g p)"
| "pstep (EvCancelPendingSave r) (h, p) = (h, cancelPendingSave r p)"
| "pstep (EvForceSave r g) (h, p) = (h, forceSave r g h p)"
| "pstep (EvSaveAllPending ds) (h, p) = (h, saveAllPending ds h p)"
| "pstep (EvAdvance d) (h, p) = (h, advance d h p)"
| "pstep (EvPersistState r s) (h, p) = (h, persistState r s p)"
| "pstep (EvLoadState r) (h, p) = (h, snd (loadState r p))"
| "pstep (EvDeleteState r) (h, p) = (h, deleteState r p)"
| "pstep (EvHeap f) (h, p) = (f h, p)"

definition prun :: "'h pevent list \<Rightarrow> 'h \<times> 'h pstate \<Rightarrow> 'h \<times> 'h pstate" where
  "prun evs s = fold pstep evs s"

text \<open>
  Writes are counted per storage key, so the rooms that have a timer pending beside room
  \<open>r\<close> must be stored under other keys than \<open>r\<close> is.
\<close>

definition keys_apart :: "string \<Rightarrow> 'h pstate \<Rightarrow> bool" where
  "keys_apart r p =
     (\<forall>x \<in> set (timeouts p). roomOf (snd x) \<noteq> r \<longrightarrow> getStateKey (roomOf (snd x)) \<noteq> getStateKey r)"

text \<open>
  A burst of \<^verbatim>\<open>scheduleSave\<close> calls for one room: each element is a call with its getter,
  followed by a change \<open>f\<close> of the caller's heap and by \<open>d\<close> milliseconds passing before the
  next element.
\<close>

fun burst ::
  "string \<Rightarrow> (('h \<Rightarrow> bytes) \<times> ('h \<Rightarrow> 'h) \<times> nat) list \<Rightarrow> 'h \<times> 'h pstate \<Rightarrow> 'h \<times> 'h pstate" where
  "burst r [] s = s"
| "burst r ((g, f, d) # xs) (h, p) = burst r xs (f h, advance d (f h) (scheduleSave r g p))"

text \<open>Concrete data for the examples.\<close>

definition env1 :: env where
  "env1 = \<lparr>CLOUDFLARE_ACCOUNT_ID = Some ''acct'', R2_ACCESS_KEY_ID = Some ''key'',
           R2_SECRET_ACCESS_KEY = Some ''secret'', R2_BUCKET_NAME = None\<rparr>"

definition env0 :: env where
  "env0 = \<lparr>CLOUDFLARE_ACCOUNT_ID = None, R2_ACCESS_KEY_ID = Some ''key'',
           R2_SECRET_ACCESS_KEY = Some ''secret'', R2_BUCKET_NAME = None\<rparr>"

section \<open>Relay (src/src/y-websocket-utils.ts)\<close>

subsection \<open>Frames\<close>

definition wsReadyStateConnecting :: nat where
  "wsReadyStateConnecting = 0"

definition wsReadyStateOpen :: nat where
  "wsReadyStateOpen = 1"

definition messageSync :: nat where
  "messageSync = 0"

definition messageAwareness :: nat where
  "messageAwareness = 1"

definition ENCRYPTED_SYNC_VERSION :: "8 word" where
  "ENCRYPTED_SYNC_VERSION = 0x01"

definition ENCRYPTED_AWARENESS_VERSION :: "8 word" where
  "ENCRYPTED_AWARENESS_VERSION = 0x02"

definition ENCRYPTED_SYNC_COMPRESSED_VERSION :: "8 word" where
  "ENCRYPTED_SYNC_COMPRESSED_VERSION = 0x03"

definition isEncryptedMessage :: "bytes \<Rightarrow> bool" where
  "isEncryptedMessage message =
     (case message of
        [] \<Rightarrow> False
      | version # _ \<Rightarrow>
          version = ENCRYPTED_SYNC_VERSION \<or>
          version = ENCRYPTED_AWARENESS_VERSION \<or>
          version = ENCRYPTED_SYNC_COMPRESSED_VERSION)"

definition isEncryptedSyncMessage :: "bytes \<Rightarrow> bool" where
  "isEncryptedSyncMessage message =
     (case message of
        [] \<Rightarrow> False
      | b # _ \<Rightarrow> b = ENCRYPTED_SYNC_VERSION \<or> b = ENCRYPTED_SYNC_COMPRESSED_VERSION)"

subsection \<open>The libraries the relay calls\<close>

text \<open>
  The document capability (yjs, y-protocols) and the codec (lib0) are not part of the
  repository; the relay is modelled over any implementation of them, given as a record of
  functions.  A decoder that throws returns \<open>None\<close>.  \<^verbatim>\<open>readSyncMessage\<close> returns the
  document after the call, the updates whose \<^verbatim>\<open>update\<close> event it emitted while it ran (the
  relay's \<^verbatim>\<open>updateHandler\<close> is called with each), and what it wrote to the encoder, or
  \<open>None\<close> when it threw.  \<^verbatim>\<open>applyAwarenessUpdate\<close> returns the new presence states and the
  client ids it reports as added, updated and removed, or \<open>None\<close> when it threw.
\<close>

type_synonym conn = nat

type_synonym presence = "(nat \<times> bytes) list"

record 'd sync_result =
  sr_doc :: 'd
  sr_updates :: "bytes list"
  sr_reply :: "bytes option"

record 'd ylib =
  readVarUint :: "bytes \<Rightarrow> (nat \<times> bytes) option"
  readVarUint8Array :: "bytes \<Rightarrow> (bytes \<times> bytes) option"
  writeVarUint :: "nat \<Rightarrow> bytes"
  writeVarUint8Array :: "bytes \<Rightarrow> bytes"
  newDoc :: 'd
  readSyncMessage :: "bytes \<Rightarrow> 'd \<Rightarrow> 'd sync_result"
  writeUpdate :: "bytes \<Rightarrow> bytes"
  writeSyncStep1 :: "'d \<Rightarrow> bytes"
  applyAwarenessUpdate :: "bytes \<Rightarrow> presence \<Rightarrow> (presence \<times> nat list \<times> nat list \<times> nat list) option"
  encodeAwarenessUpdate :: "presence \<Rightarrow> nat list \<Rightarrow> bytes"

subsection \<open>A room's shared document and the transport\<close>

text \<open>
  \<^verbatim>\<open>WSSharedDoc\<close>: the fields the class adds, and \<open>ydoc\<close> for the state of the \<^verbatim>\<open>Y.Doc\<close> it
  extends.  \<^verbatim>\<open>conns\<close> is a \<^verbatim>\<open>Map\<close> from connection to the set of client ids it controls, kept
  in insertion order since \<^verbatim>\<open>forEach\<close> walks it in that order.  \<open>awareness\<close> is the presence
  map \<^verbatim>\<open>awareness.states\<close>, from client id to presence payload.

  A connection is known by its identity.  The transport holds each connection's
  \<^verbatim>\<open>readyState\<close> (0 connecting, 1 open, 2 closing, 3 closed) and \<open>wire\<close>, the frames it has
  accepted for delivery, in order, each with the connection it goes to.
\<close>

record 'd WSSharedDoc =
  name :: string
  gc :: bool
  conns :: "(conn \<times> nat list) list"
  awareness :: presence
  ydoc :: 'd
  encryptedState :: "bytes option"
  isEncrypted :: bool

record transport =
  readyState :: "conn \<Rightarrow> nat"
  wire :: "(conn \<times> bytes) list"

text \<open>
  \<^verbatim>\<open>conn.close()\<close> of the transport: a closed connection stays closed, any other one is
  closing from then on.
\<close>

definition ws_close :: "conn \<Rightarrow> transport \<Rightarrow> transport" where
  "ws_close c t = t\<lparr>readyState := (readyState t)(c := (if readyState t c = 3 then 3 else 2))\<rparr>"

text \<open>
  \<^verbatim>\<open>conn.send(m, cb)\<close> of the transport: an open connection accepts the frame; a connecting
  one throws; a closing or closed one accepts nothing and reports the error to the
  callback later (the callback calls \<^verbatim>\<open>closeConn\<close> again, the event \<open>Close\<close> below).
  The result says whether the call threw.
\<close>

definition ws_send :: "conn \<Rightarrow> bytes \<Rightarrow> transport \<Rightarrow> bool \<times> transport" where
  "ws_send c m t =
     (if readyState t c = wsReadyStateOpen then (False, t\<lparr>wire := wire t @ [(c, m)]\<rparr>)
      else if readyState t c = wsReadyStateConnecting then (True, t)
      else (False, t))"

text \<open>The frame the awareness handler broadcasts for the changed client ids.\<close>

definition awarenessFrame :: "'d ylib \<Rightarrow> presence \<Rightarrow> nat list \<Rightarrow> bytes" where
  "awarenessFrame lib st changedClients =
     writeVarUint lib messageAwareness @
     writeVarUint8Array lib (encodeAwarenessUpdate lib st changedClients)"

text \<open>The frame \<^verbatim>\<open>updateHandler\<close> broadcasts for an update of the document.\<close>

definition updateFrame :: "'d ylib \<Rightarrow> bytes \<Rightarrow> bytes" where
  "updateFrame lib u = writeVarUint lib messageSync @ writeUpdate lib u"

text \<open>
  Modelled from the spec: \<^verbatim>\<open>removeAwarenessStates\<close> of the awareness library, which is not
  in the repository.  The presence entries of the given client ids are revoked from the
  presence map; the ids that had an entry are reported as removed.
\<close>

definition removeStates :: "nat list \<Rightarrow> presence \<Rightarrow> presence \<times> nat list" where
  "removeStates clients st =
     (filter (\<lambda>e. fst e \<notin> set clients) st, filter (\<lambda>i. i \<in> set (map fst st)) clients)"

text \<open>
  \<^verbatim>\<open>closeConn\<close>, \<^verbatim>\<open>send\<close> and the loop \<^verbatim>\<open>doc.conns.forEach(... send ...)\<close> call each other:
  \<^verbatim>\<open>send\<close> closes a connection whose transport is dead, \<^verbatim>\<open>closeConn\<close> revokes the presence
  entries of the connection, and when an entry was revoked the awareness library emits
  its \<^verbatim>\<open>update\<close> event, whose handler (with no origin connection) broadcasts the change with
  \<^verbatim>\<open>send\<close> to the connections that are left.  Each nested \<^verbatim>\<open>closeConn\<close> that finds its
  connection in the map takes one unit of fuel; \<open>None\<close> is running out of fuel.

  The loop walks the keys the map had when the loop started and skips a key that has left
  the map by the time it is reached, as \<^verbatim>\<open>Map.prototype.forEach\<close> does.  Its argument
  \<open>except\<close> is the sender that \<^verbatim>\<open>broadcastEncryptedMessage\<close> leaves out, \<open>None\<close> for the
  loops that send to every connection.
\<close>

function (sequential) closeConn_f ::
    "'d ylib \<Rightarrow> nat \<Rightarrow> conn \<Rightarrow> 'd WSSharedDoc \<times> transport \<Rightarrow> ('d WSSharedDoc \<times> transport) option"
  and send_f ::
    "'d ylib \<Rightarrow> nat \<Rightarrow> conn \<Rightarrow> bytes \<Rightarrow> 'd WSSharedDoc \<times> transport \<Rightarrow> ('d WSSharedDoc \<times> transport) option"
  and forEach_f ::
    "'d ylib \<Rightarrow> nat \<Rightarrow> conn option \<Rightarrow> conn list \<Rightarrow> bytes \<Rightarrow> 'd WSSharedDoc \<times> transport
      \<Rightarrow> ('d WSSharedDoc \<times> transport) option"
where
  "closeConn_f lib n c (d, t) =
     (case map_of (conns d) c of
        None \<Rightarrow> Some (d, ws_close c t)
      | Some controlledIds \<Rightarrow>
          (case n of
             0 \<Rightarrow> None
           | Suc k \<Rightarrow>
               (let d1 = d\<lparr>conns := AList.delete c (conns d)\<rparr>;
                    removed = snd (removeStates controlledIds (awareness d1));
                    d2 = d1\<lparr>awareness := fst (removeStates controlledIds (awareness d1))\<rparr>
                in case (if removed = [] then Some (d2, t)
                         else forEach_f lib k None (map fst (conns d2))
                                (awarenessFrame lib (awareness d2) removed) (d2, t)) of
                     None \<Rightarrow> None
                   | Some (d3, t3) \<Rightarrow> Some (d3, ws_close c t3))))"
| "send_f lib n c m (d, t) =
     (case (if readyState t c \<noteq> wsReadyStateConnecting \<and> readyState t c \<noteq> wsReadyStateOpen
            then closeConn_f lib n c (d, t) else Some (d, t)) of
        None \<Rightarrow> None
      | Some (d1, t1) \<Rightarrow>
          (case ws_send c m t1 of
             (True, t2) \<Rightarrow> closeConn_f lib n c (d1, t2)
           | (False, t2) \<Rightarrow> Some (d1, t2)))"
| "forEach_f lib n except [] m s = Some s"
| "forEach_f lib n except (c # cs) m (d, t) =
     (if c \<in> set (map fst (conns d)) \<and> except \<noteq> Some c
      then (case send_f lib n c m (d, t) of
              None \<Rightarrow> None
            | Some s1 \<Rightarrow> forEach_f lib n except cs m s1)
      else forEach_f lib n except cs m (d, t))"
  by pat_completeness auto
termination
  by (relation "measures
        [\<lambda>x. case x of Inl (lib, n, c, s) \<Rightarrow> n
                       | Inr (Inl (lib, n, c, m, s)) \<Rightarrow> n
                       | Inr (Inr (lib, n, e, cs, m, s)) \<Rightarrow> n,
         \<lambda>x. case x of Inl (lib, n, c, s) \<Rightarrow> 0
                       | Inr (Inl (lib, n, c, m, s)) \<Rightarrow> 1
                       | Inr (Inr (lib, n, e, cs, m, s)) \<Rightarrow> 2 + length cs]")
     auto

text \<open>
  The functions of the source.  They start with as much fuel as the room has connections:
  one unit for each connection that can still leave the map.
\<close>

definition closeConn ::
  "'d ylib \<Rightarrow> conn \<Rightarrow> 'd WSSharedDoc \<times> transport \<Rightarrow> ('d WSSharedDoc \<times> transport) option" where
  "closeConn lib c s = closeConn_f lib (length (conns (fst s))) c s"

definition send ::
  "'d ylib \<Rightarrow> conn \<Rightarrow> bytes \<Rightarrow> 'd WSSharedDoc \<times> transport \<Rightarrow> ('d WSSharedDoc \<times> transport) option" where
  "send lib c m s = send_f lib (length (conns (fst s))) c m s"

definition forEachSend ::
  "'d ylib \<Rightarrow> conn option \<Rightarrow> bytes \<Rightarrow> 'd WSSharedDoc \<times> transport
    \<Rightarrow> ('d WSSharedDoc \<times> transport) option" where
  "forEachSend lib except m s =
     forEach_f lib (length (conns (fst s))) except (map fst (conns (fst s))) m s"

definition updateHandler ::
  "'d ylib \<Rightarrow> bytes \<Rightarrow> 'd WSSharedDoc \<times> transport \<Rightarrow> ('d WSSharedDoc \<times> transport) option" where
  "updateHandler lib update s = forEachSend lib None (updateFrame lib update) s"

definition broadcastEncryptedMessage ::
  "'d ylib \<Rightarrow> conn \<Rightarrow> bytes \<Rightarrow> 'd WSSharedDoc \<times> transport
    \<Rightarrow> ('d WSSharedDoc \<times> transport) option" where
  "broadcastEncryptedMessage lib sender m s = forEachSend lib (Some sender) m s"

text \<open>\<^verbatim>\<open>Set.prototype.add\<close> on the list of the set's elements in insertion order.\<close>

definition set_add :: "nat \<Rightarrow> nat list \<Rightarrow> nat list" where
  "set_add x xs = (if x \<in> set xs then xs else xs @ [x])"

text \<open>
  \<^verbatim>\<open>awarenessChangeHandler\<close>, the handler of the awareness \<^verbatim>\<open>update\<close> event that the
  constructor of \<^verbatim>\<open>WSSharedDocImpl\<close> installs; \<open>origin\<close> is the connection the change came
  from, \<open>None\<close> for \<^verbatim>\<open>null\<close>.
\<close>

definition awarenessChangeHandler ::
  "'d ylib \<Rightarrow> nat list \<Rightarrow> nat list \<Rightarrow> nat list \<Rightarrow> conn option \<Rightarrow> 'd WSSharedDoc \<times> transport
    \<Rightarrow> ('d WSSharedDoc \<times> transport) option" where
  "awarenessChangeHandler lib added updated removed origin s =
     (let d = fst s;
          changedClients = added @ updated @ removed;
          d1 = (case origin of
                  None \<Rightarrow> d
                | Some c \<Rightarrow>
                    (case map_of (conns d) c of
                       None \<Rightarrow> d
                     | Some connControlledIDs \<Rightarrow>
                         d\<lparr>conns := AList.update c
                              (fold removeAll removed (fold set_add added connControlledIDs))
                              (conns d)\<rparr>))
      in forEachSend lib None (awarenessFrame lib (awareness d1) changedClients) (d1, snd s))"

subsection \<open>The server's state and its handlers\<close>

text \<open>
  \<open>docs\<close> is the map from room name to shared document, in insertion order; the closures
  of the source that hold a document hold its room name here.  \<open>persist\<close> is the state
  of the persistence module, whose getters read \<open>docs\<close>.  \<open>closing\<close> says that the servers
  have been told to close and accept no connection any more, \<open>exited\<close> that the process has
  exited.
\<close>

type_synonym 'd docmap = "(string \<times> 'd WSSharedDoc) list"

record 'd world =
  docs :: "'d docmap"
  net :: transport
  persist :: "'d docmap pstate"
  closing :: bool
  exited :: bool

definition newWSSharedDoc :: "'d ylib \<Rightarrow> string \<Rightarrow> 'd WSSharedDoc" where
  "newWSSharedDoc lib docname =
     \<lparr>name = docname, gc = True, conns = [], awareness = [], ydoc = newDoc lib,
      encryptedState = None, isEncrypted = False\<rparr>"

definition getYDoc :: "'d ylib \<Rightarrow> string \<Rightarrow> bool \<Rightarrow> 'd docmap \<Rightarrow> 'd WSSharedDoc \<times> 'd docmap" where
  "getYDoc lib docname gcflag ds =
     (case map_of ds docname of
        Some doc \<Rightarrow> (doc, ds)
      | None \<Rightarrow>
          (let doc = (newWSSharedDoc lib docname)\<lparr>gc := gcflag\<rparr>
           in (doc, AList.update docname doc ds)))"

text \<open>The getter \<^verbatim>\<open>() => doc.encryptedState || new Uint8Array(0)\<close> of the document of a room.\<close>

definition encryptedGetter :: "string \<Rightarrow> 'd docmap \<Rightarrow> bytes" where
  "encryptedGetter docname ds =
     (case map_of ds docname of
        None \<Rightarrow> []
      | Some doc \<Rightarrow> (case encryptedState doc of None \<Rightarrow> [] | Some b \<Rightarrow> b))"

text \<open>Storing the document and the transport a handler leaves behind.\<close>

definition put_room ::
  "string \<Rightarrow> 'd world \<Rightarrow> ('d WSSharedDoc \<times> transport) option \<Rightarrow> 'd world option" where
  "put_room docname w r =
     (case r of
        None \<Rightarrow> None
      | Some (d, t) \<Rightarrow> Some (w\<lparr>docs := AList.update docname d (docs w), net := t\<rparr>))"

text \<open>The \<^verbatim>\<open>update\<close> events of one call into the document, handled in order.\<close>

fun updateHandlers ::
  "'d ylib \<Rightarrow> bytes list \<Rightarrow> 'd WSSharedDoc \<times> transport \<Rightarrow> ('d WSSharedDoc \<times> transport) option" where
  "updateHandlers lib [] s = Some s"
| "updateHandlers lib (u # us) s =
     (case updateHandler lib u s of None \<Rightarrow> None | Some s1 \<Rightarrow> updateHandlers lib us s1)"

text \<open>
  The legacy branch of \<^verbatim>\<open>messageListener\<close>.  Whatever throws inside the \<^verbatim>\<open>try\<close> is caught
  and logged: the handler returns with the state as it is at that point.
\<close>

definition legacyMessage ::
  "'d ylib \<Rightarrow> conn \<Rightarrow> bytes \<Rightarrow> 'd WSSharedDoc \<times> transport \<Rightarrow> ('d WSSharedDoc \<times> transport) option" where
  "legacyMessage lib c message s =
     (case readVarUint lib message of
        None \<Rightarrow> Some s
      | Some (messageType, rest) \<Rightarrow>
          if messageType = messageSync then
            (case readVarUint lib rest of
               None \<Rightarrow> Some s
             | Some syncMessageType \<Rightarrow>
                 (let r = readSyncMessage lib rest (ydoc (fst s));
                      s1 = ((fst s)\<lparr>ydoc := sr_doc r\<rparr>, snd s)
                  in case updateHandlers lib (sr_updates r) s1 of
                       None \<Rightarrow> None
                     | Some s2 \<Rightarrow>
                         (case sr_reply r of
                            None \<Rightarrow> Some s2
                          | Some reply \<Rightarrow>
                              if length (writeVarUint lib messageSync @ reply) > 1
                              then send lib c (writeVarUint lib messageSync @ reply) s2
                              else Some s2)))
          else if messageType = messageAwareness then
            (case readVarUint8Array lib rest of
               None \<Rightarrow> Some s
             | Some (update, rest') \<Rightarrow>
                 (case applyAwarenessUpdate lib update (awareness (fst s)) of
                    None \<Rightarrow> Some s
                  | Some (st, added, updated, removed) \<Rightarrow>
                      (let s1 = ((fst s)\<lparr>awareness := st\<rparr>, snd s)
                       in if added @ updated @ removed = [] then Some s1
                          else awarenessChangeHandler lib added updated removed (Some c) s1)))
          else Some s)"

text \<open>
  \<^verbatim>\<open>messageListener(conn, doc, message)\<close>, for the document of room \<open>docname\<close>.  The handler
  is installed by \<^verbatim>\<open>setupWSConnection\<close> after \<^verbatim>\<open>getYDoc\<close>, so the room has a document.
\<close>

definition messageListener ::
  "'d ylib \<Rightarrow> conn \<Rightarrow> string \<Rightarrow> bytes \<Rightarrow> 'd world \<Rightarrow> 'd world option" where
  "messageListener lib c docname message w =
     (case map_of (docs w) docname of
        None \<Rightarrow> Some w
      | Some doc \<Rightarrow>
          if isEncryptedMessage message then
            (let doc1 = doc\<lparr>isEncrypted := True\<rparr>
             in if isEncryptedSyncMessage message then
                  (let doc2 = doc1\<lparr>encryptedState := Some message\<rparr>;
                       w1 = w\<lparr>persist := scheduleSave (name doc2) (encryptedGetter docname) (persist w)\<rparr>
                   in put_room docname w1 (broadcastEncryptedMessage lib c message (doc2, net w1)))
                else put_room docname w (broadcastEncryptedMessage lib c message (doc1, net w)))
          else put_room docname w (legacyMessage lib c message (doc, net w)))"

text \<open>The \<^verbatim>\<open>close\<close> handler of a connection, and the callback of a failed send.\<close>

definition closeHandler :: "'d ylib \<Rightarrow> conn \<Rightarrow> string \<Rightarrow> 'd world \<Rightarrow> 'd world option" where
  "closeHandler lib c docname w =
     (case map_of (docs w) docname of
        None \<Rightarrow> Some w
      | Some doc \<Rightarrow> put_room docname w (closeConn lib c (doc, net w)))"

text \<open>The room name \<^verbatim>\<open>docName || req.url?.slice(1).split('?')[0] || 'default'\<close>.\<close>

definition roomName :: "string option \<Rightarrow> string option \<Rightarrow> string" where
  "roomName docName url =
     (if \<not> falsy docName then (case docName of Some n \<Rightarrow> n | None \<Rightarrow> [])
      else (case url of
              None \<Rightarrow> ''default''
            | Some u \<Rightarrow>
                (let s = takeWhile (\<lambda>ch. ch \<noteq> CHR ''?'') (drop 1 u)
                 in if s = [] then ''default'' else s)))"

text \<open>
  \<^verbatim>\<open>setupWSConnection\<close>.  The \<^verbatim>\<open>await\<close> of \<^verbatim>\<open>loadState\<close> is taken in one step with the rest
  of the function.  A \<^verbatim>\<open>Uint8Array\<close> is truthy whatever its length, so the tests of
  \<^verbatim>\<open>persistedState\<close> and of \<^verbatim>\<open>doc.encryptedState\<close> are tests for \<open>Some\<close>.
\<close>

definition setupWSConnection ::
  "'d ylib \<Rightarrow> conn \<Rightarrow> string option \<Rightarrow> string option \<Rightarrow> bool \<Rightarrow> 'd world \<Rightarrow> 'd world option" where
  "setupWSConnection lib c docName url gcflag w =
     (let docname = roomName docName url;
          (doc, ds) = getYDoc lib docname gcflag (docs w);
          (doc1, p1) =
            (if length (conns doc) = 0 \<and> encryptedState doc = None
             then (case loadState docname (persist w) of
                     (Some persistedState, p) \<Rightarrow>
                       (doc\<lparr>encryptedState := Some persistedState, isEncrypted := True\<rparr>, p)
                   | (None, p) \<Rightarrow> (doc, p))
             else (doc, persist w));
          doc2 = doc1\<lparr>conns := AList.update c [] (conns doc1)\<rparr>;
          w1 = w\<lparr>docs := ds, persist := p1\<rparr>
      in case (if isEncrypted doc2 then encryptedState doc2 else None) of
           Some blob \<Rightarrow> put_room docname w1 (send lib c blob (doc2, net w1))
         | None \<Rightarrow>
             (case send lib c (writeVarUint lib messageSync @ writeSyncStep1 lib (ydoc doc2))
                     (doc2, net w1) of
                None \<Rightarrow> None
              | Some s1 \<Rightarrow>
                  if length (awareness (fst s1)) > 0
                  then put_room docname w1
                         (send lib c (awarenessFrame lib (awareness (fst s1))
                                        (map fst (awareness (fst s1)))) s1)
                  else put_room docname w1 (Some s1)))"

text \<open>\<^verbatim>\<open>getDocsForPersistence\<close>: a getter for each document that holds an encrypted state.\<close>

definition getDocsForPersistence :: "'d docmap \<Rightarrow> (string \<times> ('d docmap \<Rightarrow> bytes)) list" where
  "getDocsForPersistence ds =
     map (\<lambda>e. (fst e, encryptedGetter (fst e)))
         (filter (\<lambda>e. encryptedState (snd e) \<noteq> None) ds)"

subsection \<open>The server shell (src/unnamed/part_001)\<close>

text \<open>
  The handler of \<^verbatim>\<open>SIGTERM\<close> closes the WebSocket server and, in its callback, the HTTP
  server; the callback of that, which runs once both are closed, exits the process.  The
  handler and its callbacks call nothing of the persistence module and nothing of the
  relay: the module that holds them imports neither \<^verbatim>\<open>saveAllPending\<close> nor
  \<^verbatim>\<open>getDocsForPersistence\<close>.
\<close>

definition sigtermHandler :: "'d world \<Rightarrow> 'd world" where
  "sigtermHandler w = w\<lparr>closing := True\<rparr>"

definition serversClosed :: "'d world \<Rightarrow> 'd world" where
  "serversClosed w = (if closing w then w\<lparr>exited := True\<rparr> else w)"

text \<open>
  What can happen to the server: a connection is set up (unless the servers are closing),
  a frame arrives on a connection of a room, a connection closes (or a send on it reports
  an error), time passes, the transport changes the state of a connection, the process is
  told to terminate, the servers have closed.  A process that has exited does nothing
  more.
\<close>

datatype event =
    Connect conn "string option" "string option"
  | Message conn string bytes
  | Close conn string
  | Elapse nat
  | Transport conn nat
  | Sigterm
  | ServersClosed

definition step :: "'d ylib \<Rightarrow> event \<Rightarrow> 'd world \<Rightarrow> 'd world option" where
  "step lib ev w =
     (if exited w then Some w
      else (case ev of
              Connect c docName url \<Rightarrow>
                if closing w then Some w else setupWSConnection lib c docName url True w
            | Message c docname m \<Rightarrow> messageListener lib c docname m w
            | Close c docname \<Rightarrow> closeHandler lib c docname w
            | Elapse d \<Rightarrow> Some (w\<lparr>persist := advance d (docs w) (persist w)\<rparr>)
            | Transport c rs \<Rightarrow> Some (w\<lparr>net := (net w)\<lparr>readyState := (readyState (net w))(c := rs)\<rparr>\<rparr>)
            | Sigterm \<Rightarrow> Some (sigtermHandler w)
            | ServersClosed \<Rightarrow> Some (serversClosed w)))"

fun run :: "'d ylib \<Rightarrow> event list \<Rightarrow> 'd world \<Rightarrow> 'd world option" where
  "run lib [] w = Some w"
| "run lib (ev # evs) w = (case step lib ev w of None \<Rightarrow> None | Some w1 \<Rightarrow> run lib evs w1)"

definition world0 :: "env \<Rightarrow> 'd world" where
  "world0 e = \<lparr>docs = [], net = \<lparr>readyState = (\<lambda>_. wsReadyStateOpen), wire = []\<rparr>,
               persist = pstate0 e, closing = False, exited = False\<rparr>"

subsection \<open>What a handler may change\<close>

text \<open>
  The relations below hold between the document and transport before and after a handler
  that may close the connections in \<open>A\<close> and may send the frames in \<open>W\<close>: the name, the
  document state, the encrypted state and the mode are the same; the connections that are
  gone are in \<open>A\<close> or were not open; presence entries are only revoked; a connection that was
  open and is not in \<open>A\<close> is still open, and none has become open; the transport has accepted
  new frames only, each for a connection that was open, and each in \<open>W\<close> or an awareness
  frame.
\<close>

definition same_scalars :: "'d WSSharedDoc \<times> transport \<Rightarrow> 'd WSSharedDoc \<times> transport \<Rightarrow> bool" where
  "same_scalars s s' =
     (name (fst s') = name (fst s) \<and> gc (fst s') = gc (fst s) \<and> ydoc (fst s') = ydoc (fst s) \<and>
      encryptedState (fst s') = encryptedState (fst s) \<and>
      isEncrypted (fst s') = isEncrypted (fst s))"

definition conns_shrink ::
  "conn set \<Rightarrow> 'd WSSharedDoc \<times> transport \<Rightarrow> 'd WSSharedDoc \<times> transport \<Rightarrow> bool" where
  "conns_shrink A s s' =
     (\<exists>X. X \<subseteq> A \<union> {c. readyState (snd s) c \<noteq> wsReadyStateOpen} \<and>
          conns (fst s') = filter (\<lambda>e. fst e \<notin> X) (conns (fst s)))"

definition presence_shrink :: "'d WSSharedDoc \<times> transport \<Rightarrow> 'd WSSharedDoc \<times> transport \<Rightarrow> bool" where
  "presence_shrink s s' =
     (\<exists>Y. awareness (fst s') = filter (\<lambda>e. fst e \<notin> Y) (awareness (fst s)))"

definition ready_kept ::
  "conn set \<Rightarrow> 'd WSSharedDoc \<times> transport \<Rightarrow> 'd WSSharedDoc \<times> transport \<Rightarrow> bool" where
  "ready_kept A s s' =
     ((\<forall>c. c \<notin> A \<and> readyState (snd s) c = wsReadyStateOpen
            \<longrightarrow> readyState (snd s') c = wsReadyStateOpen) \<and>
      (\<forall>c. readyState (snd s) c \<noteq> wsReadyStateOpen
            \<longrightarrow> readyState (snd s') c \<noteq> wsReadyStateOpen))"

definition isAwarenessFrame :: "'d ylib \<Rightarrow> bytes \<Rightarrow> bool" where
  "isAwarenessFrame lib m = (\<exists>st ids. m = awarenessFrame lib st ids)"

definition wire_grows ::
  "'d ylib \<Rightarrow> (conn \<times> bytes) set \<Rightarrow> 'd WSSharedDoc \<times> transport
     \<Rightarrow> 'd WSSharedDoc \<times> transport \<Rightarrow> bool" where
  "wire_grows lib W s s' =
     (\<exists>fs. wire (snd s') = wire (snd s) @ fs \<and>
           (\<forall>e \<in> set fs. readyState (snd s) (fst e) = wsReadyStateOpen \<and>
                          (e \<in> W \<or> isAwarenessFrame lib (snd e))))"

definition ext ::
  "'d ylib \<Rightarrow> conn set \<Rightarrow> (conn \<times> bytes) set \<Rightarrow> 'd WSSharedDoc \<times> transport
     \<Rightarrow> 'd WSSharedDoc \<times> transport \<Rightarrow> bool" where
  "ext lib A W s s' =
     (same_scalars s s' \<and> conns_shrink A s s' \<and> presence_shrink s s' \<and> ready_kept A s s' \<and>
      wire_grows lib W s s')"

text \<open>
  What closing connection \<open>c\<close>, which controlled the client ids \<open>ids\<close>, leaves behind:
  \<open>c\<close> is out of the connection map and none of \<open>ids\<close> has a presence entry; the name,
  the document state, the encrypted state and the mode of the room are the same; every
  other connection whose transport is open is still in the map with the ids it controls,
  and still open; no connection and no presence entry has been added.
\<close>

definition closed_out ::
  "conn \<Rightarrow> nat list \<Rightarrow> 'd WSSharedDoc \<times> transport \<Rightarrow> 'd WSSharedDoc \<times> transport \<Rightarrow> bool" where
  "closed_out c ids s s' =
     (c \<notin> fst ` set (conns (fst s')) \<and>
      (\<forall>i \<in> set ids. i \<notin> fst ` set (awareness (fst s'))) \<and>
      name (fst s') = name (fst s) \<and> ydoc (fst s') = ydoc (fst s) \<and>
      encryptedState (fst s') = encryptedState (fst s) \<and>
      isEncrypted (fst s') = isEncrypted (fst s) \<and>
      (\<forall>c'. c' \<noteq> c \<and> readyState (snd s) c' = wsReadyStateOpen \<longrightarrow>
            map_of (conns (fst s')) c' = map_of (conns (fst s)) c' \<and>
            readyState (snd s') c' = wsReadyStateOpen) \<and>
      set (conns (fst s')) \<subseteq> set (conns (fst s)) \<and>
      set (awareness (fst s')) \<subseteq> set (awareness (fst s)))"

text \<open>The name, the encrypted state and the mode of a room are the same before and after.\<close>

definition same_mode :: "'d WSSharedDoc \<times> transport \<Rightarrow> 'd WSSharedDoc \<times> transport \<Rightarrow> bool" where
  "same_mode s s' =
     (name (fst s') = name (fst s) \<and> encryptedState (fst s') = encryptedState (fst s) \<and>
      isEncrypted (fst s') = isEncrypted (fst s))"

text \<open>Every room that is in encrypted mode before is still there, and in encrypted mode, after.\<close>

definition mode_kept :: "'d world \<Rightarrow> 'd world \<Rightarrow> bool" where
  "mode_kept w w' =
     (\<forall>r d. map_of (docs w) r = Some d \<and> isEncrypted d \<longrightarrow>
            (\<exists>d'. map_of (docs w') r = Some d' \<and> isEncrypted d'))"

subsection \<open>A small implementation of the libraries, and states for the examples\<close>

text \<open>
  The theorems hold for every implementation of the libraries; the examples run on this
  one.  Its document is the list of the updates it has merged; its integers are one byte.
\<close>

definition tiny_readVarUint :: "bytes \<Rightarrow> (nat \<times> bytes) option" where
  "tiny_readVarUint bs =
     (case bs of [] \<Rightarrow> None | b # rest \<Rightarrow> if b < 128 then Some (unat b, rest) else None)"

definition tiny_readVarUint8Array :: "bytes \<Rightarrow> (bytes \<times> bytes) option" where
  "tiny_readVarUint8Array bs =
     (case tiny_readVarUint bs of
        None \<Rightarrow> None
      | Some (n, rest) \<Rightarrow> if n \<le> length rest then Some (take n rest, drop n rest) else None)"

definition tiny_readSyncMessage :: "bytes \<Rightarrow> bytes list \<Rightarrow> bytes list sync_result" where
  "tiny_readSyncMessage payload doc =
     (case tiny_readVarUint payload of
        None \<Rightarrow> \<lparr>sr_doc = doc, sr_updates = [], sr_reply = None\<rparr>
      | Some (ty, rest) \<Rightarrow>
          if ty = 0 then \<lparr>sr_doc = doc, sr_updates = [], sr_reply = Some (1 # concat doc)\<rparr>
          else if ty = 1 \<or> ty = 2 then
            (case tiny_readVarUint8Array rest of
               None \<Rightarrow> \<lparr>sr_doc = doc, sr_updates = [], sr_reply = None\<rparr>
             | Some (u, rest') \<Rightarrow>
                 if u \<in> set doc then \<lparr>sr_doc = doc, sr_updates = [], sr_reply = Some []\<rparr>
                 else \<lparr>sr_doc = doc @ [u], sr_updates = [u], sr_reply = Some []\<rparr>)
          else \<lparr>sr_doc = doc, sr_updates = [], sr_reply = None\<rparr>)"

definition tiny_applyAwarenessUpdate ::
  "bytes \<Rightarrow> presence \<Rightarrow> (presence \<times> nat list \<times> nat list \<times> nat list) option" where
  "tiny_applyAwarenessUpdate update st =
     (case update of
        [i, v] \<Rightarrow>
          if unat i \<in> set (map fst st)
          then Some (AList.update (unat i) [v] st, [], [unat i], [])
          else Some (AList.update (unat i) [v] st, [unat i], [], [])
      | _ \<Rightarrow> None)"

definition tinyLib :: "bytes list ylib" where
  "tinyLib =
     \<lparr>readVarUint = tiny_readVarUint,
      readVarUint8Array = tiny_readVarUint8Array,
      writeVarUint = (\<lambda>n. [of_nat n]),
      writeVarUint8Array = (\<lambda>bs. of_nat (length bs) # bs),
      newDoc = [],
      readSyncMessage = tiny_readSyncMessage,
      writeUpdate = (\<lambda>u. 2 # of_nat (length u) # u),
      writeSyncStep1 = (\<lambda>doc. [0, of_nat (length doc)]),
      applyAwarenessUpdate = tiny_applyAwarenessUpdate,
      encodeAwarenessUpdate = (\<lambda>st ids. map of_nat ids)\<rparr>"

text \<open>A room with three connections, by default all open and none with a presence entry.\<close>

definition room1 :: string where
  "room1 = ''book1:ch2''"

definition doc1 :: "bytes list WSSharedDoc" where
  "doc1 = \<lparr>name = room1, gc = True, conns = [(1, []), (2, []), (3, [])], awareness = [],
           ydoc = [], encryptedState = None, isEncrypted = False\<rparr>"

definition net1 :: transport where
  "net1 = \<lparr>readyState = (\<lambda>c. wsReadyStateOpen), wire = []\<rparr>"

definition world1 :: "bytes list world" where
  "world1 = \<lparr>docs = [(room1, doc1)], net = net1, persist = pstate0 env1, closing = False, exited = False\<rparr>"

text \<open>A room where connection 1 controls client id 7 and the transport of connection 2 is
  closed.\<close>

definition doc2 :: "bytes list WSSharedDoc" where
  "doc2 = \<lparr>name = room1, gc = True, conns = [(1, [7]), (2, [])], awareness = [(7, [9])],
           ydoc = [], encryptedState = None, isEncrypted = False\<rparr>"

definition net2 :: transport where
  "net2 = \<lparr>readyState = (\<lambda>c. if c = 2 then 3 else wsReadyStateOpen), wire = []\<rparr>"

text \<open>The room of the first example after it has latched to encrypted mode.\<close>

definition doc3 :: "bytes list WSSharedDoc" where
  "doc3 = doc1\<lparr>encryptedState := Some [0x01, 5], isEncrypted := True\<rparr>"

definition world3 :: "bytes list world" where
  "world3 = \<lparr>docs = [(room1, doc3)], net = net1, persist = pstate0 env1, closing = False, exited = False\<rparr>"

text \<open>The encrypted room with a save pending, as it is a moment after its last frame.\<close>

definition world4 :: "bytes list world" where
  "world4 = world3\<lparr>persist := scheduleSave room1 (encryptedGetter room1) (pstate0 env1)\<rparr>"


text \<open>
  Frames as a client of the legacy protocol writes them.  \<open>notesUpdate\<close> is an update of a
  document: one new item of client 7 at clock 0, which sets the key \<^verbatim>\<open>a\<close> of the root map
  \<^verbatim>\<open>notes\<close> to the string \<^verbatim>\<open>b\<close>, and an empty delete set.  \<open>notesFrame\<close> is the sync frame that
  carries it: message type 0, sync message type 2 (update), the length of the update, the
  update.  \<open>presenceFrame\<close> is a presence frame: message type 1, the length of the presence
  update, and the update, which gives client 7 at clock 1 the state \<^verbatim>\<open>{}\<close>.
\<close>

definition notesUpdate :: bytes where
  "notesUpdate = [1, 1, 7, 0, 40, 1, 5, 110, 111, 116, 101, 115, 1, 97, 1, 119, 1, 98, 0]"

definition notesFrame :: bytes where
  "notesFrame = [0, 2, 19] @ notesUpdate"

section \<open>Proofs\<close>

lemma persistState_proj [simp]:
  "penv (persistState r s p) = penv p"
  "timeouts (persistState r s p) = timeouts p"
  "saveTimers (persistState r s p) = saveTimers p"
  "nextTimeout (persistState r s p) = nextTimeout p"
  "clock (persistState r s p) = clock p"
  "outage (persistState r s p) = outage p"
  "s3log (persistState r s p) = s3log p @ puts r s (penv p)"
  by (auto simp: persistState_def puts_def Let_def split: option.splits)

lemma clearTimeout_proj [simp]:
  "penv (clearTimeout t p) = penv p"
  "timeouts (clearTimeout t p) = filter (\<lambda>x. fst x \<noteq> t) (timeouts p)"
  "saveTimers (clearTimeout t p) = saveTimers p"
  "nextTimeout (clearTimeout t p) = nextTimeout p"
  "clock (clearTimeout t p) = clock p"
  "outage (clearTimeout t p) = outage p"
  "s3log (clearTimeout t p) = s3log p"
  "objects (clearTimeout t p) = objects p"
  by (simp_all add: clearTimeout_def)

lemma saveTimerCallback_proj [simp]:
  "penv (saveTimerCallback r g h p) = penv p"
  "timeouts (saveTimerCallback r g h p) = timeouts p"
  "saveTimers (saveTimerCallback r g h p) = (saveTimers p)(r := None)"
  "nextTimeout (saveTimerCallback r g h p) = nextTimeout p"
  "clock (saveTimerCallback r g h p) = clock p"
  "outage (saveTimerCallback r g h p) = outage p"
  "s3log (saveTimerCallback r g h p) = s3log p @ (if g h = [] then [] else puts r (g h) (penv p))"
  by (simp_all add: saveTimerCallback_def Let_def)

lemma cancelPendingSave_proj [simp]:
  "penv (cancelPendingSave r p) = penv p"
  "saveTimers (cancelPendingSave r p) = (saveTimers p)(r := None)"
  "nextTimeout (cancelPendingSave r p) = nextTimeout p"
  "clock (cancelPendingSave r p) = clock p"
  "outage (cancelPendingSave r p) = outage p"
  "s3log (cancelPendingSave r p) = s3log p"
  "objects (cancelPendingSave r p) = objects p"
  by (auto simp: cancelPendingSave_def split: option.splits)

lemma scheduleSave_proj [simp]:
  "penv (scheduleSave r g p) = penv p"
  "saveTimers (scheduleSave r g p) = (saveTimers p)(r \<mapsto> nextTimeout p)"
  "nextTimeout (scheduleSave r g p) = Suc (nextTimeout p)"
  "clock (scheduleSave r g p) = clock p"
  "outage (scheduleSave r g p) = outage p"
  "s3log (scheduleSave r g p) = s3log p"
  "objects (scheduleSave r g p) = objects p"
  by (auto simp: scheduleSave_def setTimeout_def cancelPendingSave_def Let_def split: option.splits)

lemma scheduleSave_timeouts:
  "timeouts (scheduleSave r g p) = timeouts (cancelPendingSave r p)
       @ [(nextTimeout p, \<lparr>due = clock p + SAVE_DEBOUNCE_MS, roomOf = r, getter = g\<rparr>)]"
  by (auto simp: scheduleSave_def setTimeout_def cancelPendingSave_def Let_def split: option.splits)

lemma forceSave_proj [simp]:
  "penv (forceSave r g h p) = penv p"
  "saveTimers (forceSave r g h p) = (saveTimers p)(r := None)"
  "nextTimeout (forceSave r g h p) = nextTimeout p"
  "clock (forceSave r g h p) = clock p"
  "outage (forceSave r g h p) = outage p"
  "s3log (forceSave r g h p) = s3log p @ (if g h = [] then [] else puts r (g h) (penv p))"
  by (simp_all add: forceSave_def Let_def)

lemma forceSave_timeouts: "timeouts (forceSave r g h p) = timeouts (cancelPendingSave r p)"
  by (simp add: forceSave_def Let_def)

lemma fireTimeout_active:
  assumes "distinct (map fst (timeouts p))" "(t, tm) \<in> set (timeouts p)"
  shows "fireTimeout t h p = saveTimerCallback (roomOf tm) (getter tm) h (clearTimeout t p)"
  using assms by (simp add: fireTimeout_def)

lemma fireTimeout_proj:
  assumes "distinct (map fst (timeouts p))" "(t, tm) \<in> set (timeouts p)"
  shows "penv (fireTimeout t h p) = penv p"
    "timeouts (fireTimeout t h p) = filter (\<lambda>x. fst x \<noteq> t) (timeouts p)"
    "saveTimers (fireTimeout t h p) = (saveTimers p)(roomOf tm := None)"
    "nextTimeout (fireTimeout t h p) = nextTimeout p"
    "clock (fireTimeout t h p) = clock p"
    "outage (fireTimeout t h p) = outage p"
    "s3log (fireTimeout t h p) = s3log p @ (if getter tm h = [] then [] else puts (roomOf tm) (getter tm h) (penv p))"
  by (simp_all add: fireTimeout_active[OF assms])

lemma fireAll_effect:
  assumes "distinct (map fst (timeouts p))" "set L \<subseteq> set (timeouts p)" "distinct (map fst L)"
  shows "penv (fireAll L h p) = penv p \<and>
         timeouts (fireAll L h p) = filter (\<lambda>x. fst x \<notin> fst ` set L) (timeouts p) \<and>
         saveTimers (fireAll L h p) = (\<lambda>r. if r \<in> (roomOf \<circ> snd) ` set L then None else saveTimers p r) \<and>
         nextTimeout (fireAll L h p) = nextTimeout p \<and>
         clock (fireAll L h p) = clock p \<and>
         outage (fireAll L h p) = outage p \<and>
         s3log (fireAll L h p) = s3log p @ concat (map (fired h (penv p)) L)"
  using assms
proof (induction L arbitrary: p)
  case Nil
  then show ?case by (simp add: fireAll_def)
next
  case (Cons x L)
  obtain t tm where x: "x = (t, tm)" by (cases x)
  have mem: "(t, tm) \<in> set (timeouts p)" using Cons.prems x by simp
  let ?q = "fireTimeout t h p"
  note pr = fireTimeout_proj[OF Cons.prems(1) mem, of h]
  have d: "distinct (map fst (timeouts ?q))" using Cons.prems(1) by (simp add: pr distinct_map_filter)
  have sub: "set L \<subseteq> set (timeouts ?q)"
    using Cons.prems x by (auto simp: pr)
  have dl: "distinct (map fst L)" using Cons.prems by simp
  have step: "fireAll (x # L) h p = fireAll L h ?q" by (simp add: fireAll_def x)
  note IH = Cons.IH[OF d sub dl]
  show ?case
    unfolding step using IH
    by (auto simp: pr x fired_def fun_eq_iff intro!: filter_cong)
qed

lemma loadState_proj [simp]:
  "penv (snd (loadState r p)) = penv p"
  "timeouts (snd (loadState r p)) = timeouts p"
  "saveTimers (snd (loadState r p)) = saveTimers p"
  "nextTimeout (snd (loadState r p)) = nextTimeout p"
  "clock (snd (loadState r p)) = clock p"
  by (auto simp: loadState_def Let_def split: option.splits)

lemma deleteState_proj [simp]:
  "penv (deleteState r p) = penv p"
  "timeouts (deleteState r p) = timeouts p"
  "saveTimers (deleteState r p) = saveTimers p"
  "nextTimeout (deleteState r p) = nextTimeout p"
  "clock (deleteState r p) = clock p"
  by (auto simp: deleteState_def Let_def split: option.splits)

lemma timers_inv_cong:
  "timeouts q = timeouts p \<Longrightarrow> saveTimers q = saveTimers p \<Longrightarrow> nextTimeout q = nextTimeout p
   \<Longrightarrow> timers_inv q = timers_inv p"
  by (simp add: timers_inv_def)

lemma inv_pstate0: "timers_inv (pstate0 e)"
  by (simp add: timers_inv_def pstate0_def)

lemma inv_persistState: "timers_inv p \<Longrightarrow> timers_inv (persistState r s p)"
  by (simp add: timers_inv_cong[of "persistState r s p" p])

lemma inv_unique:
  "timers_inv p \<Longrightarrow> (t, tm) \<in> set (timeouts p) \<Longrightarrow> (t, tm') \<in> set (timeouts p) \<Longrightarrow> tm = tm'"
  by (auto simp: timers_inv_def dest: eq_key_imp_eq_value)

lemma inv_room_handle:
  "timers_inv p \<Longrightarrow> (t, tm) \<in> set (timeouts p) \<Longrightarrow> saveTimers p (roomOf tm) = Some t \<and> t < nextTimeout p"
  by (auto simp: timers_inv_def)

lemma inv_handle_room:
  "timers_inv p \<Longrightarrow> saveTimers p r = Some t \<Longrightarrow> \<exists>tm. (t, tm) \<in> set (timeouts p) \<and> roomOf tm = r"
  by (auto simp: timers_inv_def)

lemma inv_cancel_timeouts:
  assumes "timers_inv p"
  shows "timeouts (cancelPendingSave r p) = filter (\<lambda>x. roomOf (snd x) \<noteq> r) (timeouts p)"
proof (cases "saveTimers p r")
  case None
  have "\<forall>x \<in> set (timeouts p). roomOf (snd x) \<noteq> r"
  proof
    fix x assume "x \<in> set (timeouts p)"
    then have "(fst x, snd x) \<in> set (timeouts p)" by simp
    from inv_room_handle[OF assms this] None show "roomOf (snd x) \<noteq> r" by auto
  qed
  then have "filter (\<lambda>x. roomOf (snd x) \<noteq> r) (timeouts p) = timeouts p"
    by (simp add: filter_id_conv)
  then show ?thesis using None by (simp add: cancelPendingSave_def)
next
  case (Some t0)
  from inv_handle_room[OF assms Some] obtain tm0 where
    tm0: "(t0, tm0) \<in> set (timeouts p)" "roomOf tm0 = r" by blast
  have "filter (\<lambda>x. fst x \<noteq> t0) (timeouts p) = filter (\<lambda>x. roomOf (snd x) \<noteq> r) (timeouts p)"
  proof (rule filter_cong[OF refl])
    fix x assume "x \<in> set (timeouts p)"
    then have m: "(fst x, snd x) \<in> set (timeouts p)" by simp
    show "(fst x \<noteq> t0) = (roomOf (snd x) \<noteq> r)"
    proof
      assume ne: "fst x \<noteq> t0"
      from inv_room_handle[OF assms m] Some ne show "roomOf (snd x) \<noteq> r" by auto
    next
      assume ne: "roomOf (snd x) \<noteq> r"
      show "fst x \<noteq> t0"
      proof
        assume "fst x = t0"
        with m have "(t0, snd x) \<in> set (timeouts p)" by simp
        from inv_unique[OF assms this tm0(1)] tm0(2) ne show False by simp
      qed
    qed
  qed
  then show ?thesis using Some by (simp add: cancelPendingSave_def)
qed

lemma inv_drop:
  assumes "timers_inv p"
    and q: "timeouts q = filter (\<lambda>x. roomOf (snd x) \<noteq> r) (timeouts p)"
           "saveTimers q = (saveTimers p)(r := None)" "nextTimeout q = nextTimeout p"
  shows "timers_inv q"
proof -
  have d: "distinct (map fst (timeouts q))"
    unfolding q using assms(1) by (simp add: timers_inv_def distinct_map_filter)
  have a: "\<forall>x \<in> set (timeouts q). fst x < nextTimeout q \<and> saveTimers q (roomOf (snd x)) = Some (fst x)"
    unfolding q using assms(1) by (simp add: timers_inv_def)
  have b: "\<forall>ra t. saveTimers q ra = Some t \<longrightarrow> (\<exists>tm. (t, tm) \<in> set (timeouts q) \<and> roomOf tm = ra)"
  proof (intro allI impI)
    fix ra t assume s: "saveTimers q ra = Some t"
    then have ra: "ra \<noteq> r" and s': "saveTimers p ra = Some t" by (auto simp: q split: if_splits)
    from inv_handle_room[OF assms(1) s'] obtain tm where "(t, tm) \<in> set (timeouts p)" "roomOf tm = ra" by blast
    with ra show "\<exists>tm. (t, tm) \<in> set (timeouts q) \<and> roomOf tm = ra" by (auto simp: q)
  qed
  show ?thesis unfolding timers_inv_def using d a b by blast
qed

lemma inv_cancel: "timers_inv p \<Longrightarrow> timers_inv (cancelPendingSave r p)"
  by (rule inv_drop[of p _ r]) (simp_all add: inv_cancel_timeouts)

lemma inv_schedule:
  assumes "timers_inv p" shows "timers_inv (scheduleSave r g p)"
proof -
  let ?q = "scheduleSave r g p"
  let ?n = "nextTimeout p"
  let ?tm = "\<lparr>due = clock p + SAVE_DEBOUNCE_MS, roomOf = r, getter = g\<rparr>"
  have ts: "timeouts ?q = filter (\<lambda>x. roomOf (snd x) \<noteq> r) (timeouts p) @ [(?n, ?tm)]"
    by (simp add: scheduleSave_timeouts inv_cancel_timeouts[OF assms])
  have lt: "\<forall>x \<in> set (timeouts p). fst x < ?n" using assms by (simp add: timers_inv_def)
  have d: "distinct (map fst (timeouts ?q))"
    unfolding ts using assms lt by (auto simp: timers_inv_def distinct_map_filter)
  have a: "\<forall>x \<in> set (timeouts ?q). fst x < nextTimeout ?q \<and> saveTimers ?q (roomOf (snd x)) = Some (fst x)"
    unfolding ts using assms by (auto simp: timers_inv_def less_Suc_eq)
  have b: "\<forall>ra t. saveTimers ?q ra = Some t \<longrightarrow> (\<exists>tm. (t, tm) \<in> set (timeouts ?q) \<and> roomOf tm = ra)"
  proof (intro allI impI)
    fix ra t assume s: "saveTimers ?q ra = Some t"
    show "\<exists>tm. (t, tm) \<in> set (timeouts ?q) \<and> roomOf tm = ra"
    proof (cases "ra = r")
      case True
      with s have "t = ?n" by simp
      with True show ?thesis unfolding ts by auto
    next
      case False
      with s have "saveTimers p ra = Some t" by simp
      from inv_handle_room[OF assms this] obtain tm where "(t, tm) \<in> set (timeouts p)" "roomOf tm = ra" by blast
      with False show ?thesis unfolding ts by auto
    qed
  qed
  show ?thesis unfolding timers_inv_def using d a b by blast
qed

lemma inv_fire_timeouts:
  assumes "timers_inv p" "(t, tm) \<in> set (timeouts p)"
  shows "filter (\<lambda>x. fst x \<noteq> t) (timeouts p) = filter (\<lambda>x. roomOf (snd x) \<noteq> roomOf tm) (timeouts p)"
proof -
  have s: "saveTimers p (roomOf tm) = Some t" using inv_room_handle[OF assms] by simp
  have "timeouts (cancelPendingSave (roomOf tm) p) = filter (\<lambda>x. fst x \<noteq> t) (timeouts p)"
    using s by (simp add: cancelPendingSave_def)
  then show ?thesis by (simp add: inv_cancel_timeouts[OF assms(1)])
qed

lemma inv_fireTimeout:
  assumes "timers_inv p" shows "timers_inv (fireTimeout t h p)"
proof (cases "map_of (timeouts p) t")
  case None
  then show ?thesis using assms by (simp add: fireTimeout_def)
next
  case (Some tm)
  then have m: "(t, tm) \<in> set (timeouts p)" by (rule map_of_SomeD)
  have d: "distinct (map fst (timeouts p))" using assms by (simp add: timers_inv_def)
  show ?thesis
    by (rule inv_drop[OF assms, of _ "roomOf tm"])
       (simp_all add: fireTimeout_proj[OF d m] inv_fire_timeouts[OF assms m])
qed

lemma inv_fireAll: "timers_inv p \<Longrightarrow> timers_inv (fireAll L h p)"
  unfolding fireAll_def by (induction L arbitrary: p) (simp_all add: inv_fireTimeout)

lemma inv_advance: "timers_inv p \<Longrightarrow> timers_inv (advance d h p)"
  unfolding advance_def Let_def
  by (rule inv_fireAll) (simp add: timers_inv_def)

lemma inv_forceSave: "timers_inv p \<Longrightarrow> timers_inv (forceSave r g h p)"
  by (rule inv_drop[of p _ r]) (simp_all add: forceSave_timeouts inv_cancel_timeouts)

lemma inv_saveAllPending: "timers_inv p \<Longrightarrow> timers_inv (saveAllPending ds h p)"
  by (induction ds h p rule: saveAllPending.induct) (simp_all add: inv_persistState inv_cancel)

lemma inv_pstep: "timers_inv p \<Longrightarrow> timers_inv (snd (pstep ev (h, p)))"
  by (cases ev)
     (simp_all add: inv_schedule inv_cancel inv_forceSave inv_saveAllPending inv_advance
        inv_persistState timers_inv_cong[of "snd (loadState r p)" p for r]
        timers_inv_cong[of "deleteState r p" p for r])

lemma inv_prun: "timers_inv (snd s) \<Longrightarrow> timers_inv (snd (prun evs s))"
  unfolding prun_def
proof (induction evs arbitrary: s)
  case Nil
  then show ?case by simp
next
  case (Cons ev evs)
  obtain h p where s: "s = (h, p)" by (cases s)
  from Cons.prems have "timers_inv (snd (pstep ev s))" by (simp add: s inv_pstep)
  from Cons.IH[OF this] show ?case by simp
qed

lemma distinct_key_filter:
  "distinct (map fst xs) \<Longrightarrow> length (filter (\<lambda>x. fst x = t) xs) \<le> 1"
proof (induction xs)
  case Nil
  then show ?case by simp
next
  case (Cons x xs)
  show ?case
  proof (cases "fst x = t")
    case True
    with Cons.prems have "\<forall>y \<in> set xs. fst y \<noteq> t" by (auto simp: image_iff)
    then have "filter (\<lambda>x. fst x = t) xs = []" by (simp add: filter_empty_conv)
    with True show ?thesis by simp
  next
    case False
    with Cons show ?thesis by simp
  qed
qed

lemma inv_at_most_one:
  assumes "timers_inv p" shows "length (pendingFor r p) \<le> 1"
proof (cases "saveTimers p r")
  case None
  have "timeouts (cancelPendingSave r p) = timeouts p" using None by (simp add: cancelPendingSave_def)
  then have "filter (\<lambda>x. roomOf (snd x) \<noteq> r) (timeouts p) = timeouts p"
    by (simp add: scheduleSave_timeouts inv_cancel_timeouts[OF assms])
  then have "\<forall>x \<in> set (timeouts p). roomOf (snd x) \<noteq> r" by (simp add: filter_id_conv)
  then have "pendingFor r p = []" by (simp add: pendingFor_def filter_empty_conv)
  then show ?thesis by simp
next
  case (Some t)
  have d: "distinct (map fst (timeouts p))" using assms by (simp add: timers_inv_def)
  have "pendingFor r p = filter (\<lambda>x. fst x = t) (timeouts p)"
    unfolding pendingFor_def
  proof (rule filter_cong[OF refl])
    fix x assume "x \<in> set (timeouts p)"
    then have m: "(fst x, snd x) \<in> set (timeouts p)" by simp
    from inv_handle_room[OF assms Some] obtain tm where tm: "(t, tm) \<in> set (timeouts p)" "roomOf tm = r" by blast
    show "(roomOf (snd x) = r) = (fst x = t)"
      using inv_room_handle[OF assms m] Some inv_unique[OF assms _ tm(1), of "snd x"] tm(2) m by auto
  qed
  moreover have "length (filter (\<lambda>x. fst x = t) (timeouts p)) \<le> 1"
    using d by (rule distinct_key_filter)
  ultimately show ?thesis by simp
qed

lemma writesTo_append [simp]: "writesTo r (a @ b) = writesTo r a @ writesTo r b"
  by (simp add: writesTo_def)

lemma writesTo_Nil [simp]: "writesTo r [] = []"
  by (simp add: writesTo_def)

lemma writesTo_puts:
  "writesTo r (puts r' s e) =
     (if getS3Client e \<noteq> None \<and> getStateKey r' = getStateKey r then [s] else [])"
  by (simp add: writesTo_def puts_def)

lemma writesTo_fired_other:
  "getStateKey (roomOf (snd x)) \<noteq> getStateKey r \<Longrightarrow> writesTo r (fired h e x) = []"
  by (simp add: fired_def writesTo_puts)

lemma writesTo_fired_others:
  "\<forall>x \<in> set L. getStateKey (roomOf (snd x)) \<noteq> getStateKey r \<Longrightarrow>
   writesTo r (concat (map (fired h e) L)) = []"
  by (induction L) (simp_all add: writesTo_fired_other)

lemma advance_effect:
  fixes d :: nat and p :: "'h pstate"
  assumes "timers_inv p"
  defines "L \<equiv> filter (\<lambda>x. due (snd x) \<le> clock p + d) (timeouts p)"
  shows "penv (advance d h p) = penv p"
    "timeouts (advance d h p) = filter (\<lambda>x. \<not> due (snd x) \<le> clock p + d) (timeouts p)"
    "s3log (advance d h p) = s3log p @ concat (map (fired h (penv p)) L)"
    "nextTimeout (advance d h p) = nextTimeout p"
    "clock (advance d h p) = clock p + d"
proof -
  let ?p1 = "p\<lparr>clock := clock p + d\<rparr>"
  have d1: "distinct (map fst (timeouts ?p1))" using assms(1) by (simp add: timers_inv_def)
  have sub: "set L \<subseteq> set (timeouts ?p1)" by (auto simp: L_def)
  have dl: "distinct (map fst L)" using d1 by (simp add: L_def distinct_map_filter)
  have adv: "advance d h p = fireAll L h ?p1" by (simp add: advance_def Let_def L_def)
  note eff = fireAll_effect[OF d1 sub dl, of h]
  show "penv (advance d h p) = penv p" using eff by (simp add: adv)
  show "s3log (advance d h p) = s3log p @ concat (map (fired h (penv p)) L)" using eff by (simp add: adv)
  show "nextTimeout (advance d h p) = nextTimeout p" using eff by (simp add: adv)
  show "clock (advance d h p) = clock p + d" using eff by (simp add: adv)
  have "timeouts (advance d h p) = filter (\<lambda>x. fst x \<notin> fst ` set L) (timeouts p)"
    using eff by (simp add: adv)
  also have "\<dots> = filter (\<lambda>x. \<not> due (snd x) \<le> clock p + d) (timeouts p)"
  proof (rule filter_cong[OF refl])
    fix x assume x: "x \<in> set (timeouts p)"
    show "(fst x \<notin> fst ` set L) = (\<not> due (snd x) \<le> clock p + d)"
    proof (cases "due (snd x) \<le> clock p + d")
      case True
      with x have "x \<in> set L" by (simp add: L_def)
      with True show ?thesis by auto
    next
      case False
      have "fst x \<notin> fst ` set L"
      proof
        assume "fst x \<in> fst ` set L"
        then obtain y where y: "y \<in> set L" "fst y = fst x" by auto
        then have "(fst x, snd y) \<in> set (timeouts p)" by (auto simp: L_def) (metis prod.collapse)
        moreover have "(fst x, snd x) \<in> set (timeouts p)" using x by simp
        ultimately have "snd y = snd x" using inv_unique[OF assms(1)] by blast
        with y False show False by (simp add: L_def)
      qed
      with False show ?thesis by simp
    qed
  qed
  finally show "timeouts (advance d h p) = filter (\<lambda>x. \<not> due (snd x) \<le> clock p + d) (timeouts p)" .
qed

lemma keys_apart_subset:
  "keys_apart r p \<Longrightarrow> set (timeouts q) \<subseteq> set (timeouts p) \<union> {x. roomOf (snd x) = r} \<Longrightarrow> keys_apart r q"
  by (auto simp: keys_apart_def)

lemma advance_quiet:
  assumes "timers_inv p" "keys_apart r p" "pendingFor r p = []"
  shows "writesTo r (s3log (advance d h p)) = writesTo r (s3log p)"
proof -
  have "\<forall>x \<in> set (timeouts p). getStateKey (roomOf (snd x)) \<noteq> getStateKey r"
    using assms(2,3) by (auto simp: keys_apart_def pendingFor_def filter_empty_conv)
  then have "writesTo r (concat (map (fired h (penv p)) (filter (\<lambda>x. due (snd x) \<le> clock p + d) (timeouts p)))) = []"
    by (intro writesTo_fired_others) simp
  then show ?thesis by (simp add: advance_effect[OF assms(1)])
qed

lemma schedule_advance:
  fixes d :: nat and p :: "'h pstate" and h :: 'h and g :: "'h \<Rightarrow> bytes"
  assumes "timers_inv p" "keys_apart r p"
  defines "q \<equiv> advance d h (scheduleSave r g p)"
  shows "writesTo r (s3log q) = writesTo r (s3log p) @
           (if SAVE_DEBOUNCE_MS \<le> d \<and> g h \<noteq> [] \<and> isPersistenceAvailable p then [g h] else [])"
    "timers_inv q" "keys_apart r q" "penv q = penv p"
proof -
  let ?s = "scheduleSave r g p"
  let ?F = "filter (\<lambda>x. roomOf (snd x) \<noteq> r) (timeouts p)"
  let ?new = "(nextTimeout p, \<lparr>due = clock p + SAVE_DEBOUNCE_MS, roomOf = r, getter = g\<rparr>)"
  have inv: "timers_inv ?s" by (rule inv_schedule[OF assms(1)])
  have ts: "timeouts ?s = ?F @ [?new]" by (simp add: scheduleSave_timeouts inv_cancel_timeouts[OF assms(1)])
  show "timers_inv q" unfolding q_def by (rule inv_advance[OF inv])
  show "penv q = penv p" unfolding q_def by (simp add: advance_effect[OF inv])
  have "set (timeouts q) \<subseteq> set (?F @ [?new])"
    unfolding q_def advance_effect(2)[OF inv] ts by auto
  then show "keys_apart r q" by (intro keys_apart_subset[OF assms(2)]) auto
  have others: "\<forall>x \<in> set (filter (\<lambda>x. due (snd x) \<le> clock p + d) ?F). getStateKey (roomOf (snd x)) \<noteq> getStateKey r"
    using assms(2) by (auto simp: keys_apart_def)
  have "writesTo r (s3log q) = writesTo r (s3log p) @
          writesTo r (concat (map (fired h (penv p)) (filter (\<lambda>x. due (snd x) \<le> clock p + d) [?new])))"
    unfolding q_def using writesTo_fired_others[OF others, of h "penv p"]
    by (simp add: advance_effect[OF inv] ts)
  then show "writesTo r (s3log q) = writesTo r (s3log p) @
           (if SAVE_DEBOUNCE_MS \<le> d \<and> g h \<noteq> [] \<and> isPersistenceAvailable p then [g h] else [])"
    by (simp add: fired_def writesTo_puts isPersistenceAvailable_def)
qed

lemma burst_append: "burst r (xs @ ys) s = burst r ys (burst r xs s)"
  by (induction r xs s rule: burst.induct) simp_all

lemma burst_heap: "fst (burst r xs (h, p)) = fold (\<lambda>x. fst (snd x)) xs h"
  by (induction r xs "(h, p)" arbitrary: h p rule: burst.induct) simp_all

lemma burst_quiet:
  assumes "timers_inv p" "keys_apart r p" "\<forall>x \<in> set xs. snd (snd x) < SAVE_DEBOUNCE_MS"
  shows "writesTo r (s3log (snd (burst r xs (h, p)))) = writesTo r (s3log p) \<and>
         timers_inv (snd (burst r xs (h, p))) \<and> keys_apart r (snd (burst r xs (h, p))) \<and>
         penv (snd (burst r xs (h, p))) = penv p"
  using assms
proof (induction r xs "(h, p)" arbitrary: h p rule: burst.induct)
  case (1 r)
  then show ?case by simp
next
  case (2 r g f d xs h p)
  let ?q = "advance d (f h) (scheduleSave r g p)"
  note sa = schedule_advance[OF "2.prems"(1,2), of d "f h" g]
  have d: "d < SAVE_DEBOUNCE_MS" using "2.prems"(3) by simp
  have w: "writesTo r (s3log ?q) = writesTo r (s3log p)" using sa(1) d by simp
  have rest: "\<forall>x \<in> set xs. snd (snd x) < SAVE_DEBOUNCE_MS" using "2.prems"(3) by simp
  from "2.hyps"[OF sa(2) sa(3) rest] w sa(4) show ?case by simp
qed

subsection \<open>The relay: closing, sending and broadcasting\<close>

text \<open>
  The recursive equations are unfolded by hand: as rewrite rules they would unfold under
  the case distinctions without end.
\<close>

declare closeConn_f.simps [simp del] send_f.simps [simp del] forEach_f.simps(2) [simp del]

lemma same_scalars_refl: "same_scalars s s"
  by (simp add: same_scalars_def)

lemma same_scalars_trans: "same_scalars s s1 \<Longrightarrow> same_scalars s1 s2 \<Longrightarrow> same_scalars s s2"
  by (simp add: same_scalars_def)

lemma conns_shrink_refl: "conns_shrink A s s"
  unfolding conns_shrink_def by (rule exI[of _ "{}"]) simp

lemma ready_kept_refl: "ready_kept A s s"
  by (simp add: ready_kept_def)

lemma ready_kept_trans:
  "ready_kept A s s1 \<Longrightarrow> ready_kept B s1 s2 \<Longrightarrow> ready_kept (A \<union> B) s s2"
  by (simp add: ready_kept_def)

lemma conns_shrink_trans:
  assumes "conns_shrink A s s1" "conns_shrink B s1 s2" "ready_kept A s s1"
  shows "conns_shrink (A \<union> B) s s2"
proof -
  from assms(1) obtain X1 where
    1: "X1 \<subseteq> A \<union> {c. readyState (snd s) c \<noteq> wsReadyStateOpen}"
       "conns (fst s1) = filter (\<lambda>e. fst e \<notin> X1) (conns (fst s))"
    unfolding conns_shrink_def by blast
  from assms(2) obtain X2 where
    2: "X2 \<subseteq> B \<union> {c. readyState (snd s1) c \<noteq> wsReadyStateOpen}"
       "conns (fst s2) = filter (\<lambda>e. fst e \<notin> X2) (conns (fst s1))"
    unfolding conns_shrink_def by blast
  have "{c. readyState (snd s1) c \<noteq> wsReadyStateOpen} \<subseteq> A \<union> {c. readyState (snd s) c \<noteq> wsReadyStateOpen}"
    using assms(3) unfolding ready_kept_def by blast
  with 1(1) 2(1) have X: "X1 \<union> X2 \<subseteq> (A \<union> B) \<union> {c. readyState (snd s) c \<noteq> wsReadyStateOpen}"
    by blast
  have C: "conns (fst s2) = filter (\<lambda>e. fst e \<notin> X1 \<union> X2) (conns (fst s))"
    by (simp add: 1(2) 2(2) conj_commute)
  show ?thesis unfolding conns_shrink_def using X C by blast
qed

lemma presence_shrink_refl: "presence_shrink s s"
  unfolding presence_shrink_def by (rule exI[of _ "{}"]) simp

lemma presence_shrink_trans:
  assumes "presence_shrink s s1" "presence_shrink s1 s2"
  shows "presence_shrink s s2"
proof -
  from assms obtain Y1 Y2 where
    "awareness (fst s1) = filter (\<lambda>e. fst e \<notin> Y1) (awareness (fst s))"
    "awareness (fst s2) = filter (\<lambda>e. fst e \<notin> Y2) (awareness (fst s1))"
    unfolding presence_shrink_def by blast
  then have "awareness (fst s2) = filter (\<lambda>e. fst e \<notin> Y1 \<union> Y2) (awareness (fst s))"
    by (simp add: conj_commute)
  then show ?thesis unfolding presence_shrink_def by blast
qed

lemma wire_grows_refl: "wire_grows lib W s s"
  unfolding wire_grows_def by (rule exI[of _ "[]"]) simp

lemma wire_grows_trans:
  assumes "wire_grows lib W s s1" "wire_grows lib V s1 s2" "ready_kept A s s1"
  shows "wire_grows lib (W \<union> V) s s2"
proof -
  from assms(1) obtain f1 where
    w1: "wire (snd s1) = wire (snd s) @ f1"
       "\<forall>e \<in> set f1. readyState (snd s) (fst e) = wsReadyStateOpen \<and> (e \<in> W \<or> isAwarenessFrame lib (snd e))"
    unfolding wire_grows_def by blast
  from assms(2) obtain f2 where
    w2: "wire (snd s2) = wire (snd s1) @ f2"
       "\<forall>e \<in> set f2. readyState (snd s1) (fst e) = wsReadyStateOpen \<and> (e \<in> V \<or> isAwarenessFrame lib (snd e))"
    unfolding wire_grows_def by blast
  have r: "\<forall>c. readyState (snd s1) c = wsReadyStateOpen \<longrightarrow> readyState (snd s) c = wsReadyStateOpen"
    using assms(3) unfolding ready_kept_def by blast
  have F: "wire (snd s2) = wire (snd s) @ (f1 @ f2)" by (simp add: w1(1) w2(1))
  have "\<forall>e \<in> set (f1 @ f2). readyState (snd s) (fst e) = wsReadyStateOpen \<and>
                           (e \<in> W \<union> V \<or> isAwarenessFrame lib (snd e))"
  proof
    fix e assume "e \<in> set (f1 @ f2)"
    then consider "e \<in> set f1" | "e \<in> set f2" by auto
    then show "readyState (snd s) (fst e) = wsReadyStateOpen \<and> (e \<in> W \<union> V \<or> isAwarenessFrame lib (snd e))"
    proof cases
      case 1
      with w1(2) show ?thesis by blast
    next
      case 2
      with w2(2) r show ?thesis by blast
    qed
  qed
  with F show ?thesis unfolding wire_grows_def by blast
qed

lemma ext_refl: "ext lib A W s s"
  by (simp add: ext_def same_scalars_refl conns_shrink_refl presence_shrink_refl ready_kept_refl
      wire_grows_refl)

lemma ext_trans:
  assumes "ext lib A W s s1" "ext lib B V s1 s2"
  shows "ext lib (A \<union> B) (W \<union> V) s s2"
  using assms unfolding ext_def
  by (auto intro: same_scalars_trans conns_shrink_trans presence_shrink_trans ready_kept_trans
      wire_grows_trans)


lemma ext_weaken:
  assumes "ext lib A W s s'" "A \<subseteq> A'" "W \<subseteq> W'"
  shows "ext lib A' W' s s'"
proof -
  have 1: "conns_shrink A' s s'"
    using assms(1,2) unfolding ext_def conns_shrink_def by blast
  have 2: "ready_kept A' s s'"
    using assms(1,2) unfolding ext_def ready_kept_def by blast
  have 3: "wire_grows lib W' s s'"
    using assms(1,3) unfolding ext_def wire_grows_def by blast
  show ?thesis using assms(1) 1 2 3 unfolding ext_def by simp
qed

lemma ext_dead:
  assumes "ext lib A W s s'" "\<forall>c \<in> A. readyState (snd s) c \<noteq> wsReadyStateOpen"
  shows "ext lib {} W s s'"
proof -
  have 1: "conns_shrink {} s s'"
    using assms unfolding ext_def conns_shrink_def by blast
  have 2: "ready_kept {} s s'"
    using assms unfolding ext_def ready_kept_def by blast
  show ?thesis using assms(1) 1 2 unfolding ext_def by simp
qed

lemma ext_aw:
  assumes "ext lib A W s s'" "\<forall>e \<in> W. isAwarenessFrame lib (snd e)"
  shows "ext lib A {} s s'"
proof -
  have "wire_grows lib {} s s'"
    using assms unfolding ext_def wire_grows_def by blast
  then show ?thesis using assms(1) unfolding ext_def by simp
qed

lemma ext_length: "ext lib A W s s' \<Longrightarrow> length (conns (fst s')) \<le> length (conns (fst s))"
  unfolding ext_def conns_shrink_def by auto

lemma ext_ws_close: "ext lib {c} {} (d, t) (d, ws_close c t)"
  unfolding ext_def
  by (simp add: same_scalars_refl conns_shrink_refl[of _ "(d, t)", simplified] presence_shrink_refl[of "(d, t)", simplified]
      conns_shrink_def presence_shrink_def)
     (auto simp: ready_kept_def wire_grows_def ws_close_def wsReadyStateOpen_def same_scalars_def
        intro: exI[of _ "{}"])


lemma delete_filter: "AList.delete c xs = filter (\<lambda>e. fst e \<notin> {c}) xs"
  by (induction xs) auto

lemma ext_delete: "ext lib {c} {} (d, t) (d\<lparr>conns := AList.delete c (conns d)\<rparr>, t)"
proof -
  have "conns_shrink {c} (d, t) (d\<lparr>conns := AList.delete c (conns d)\<rparr>, t)"
    unfolding conns_shrink_def by (rule exI[of _ "{c}"]) (simp add: delete_filter)
  moreover have "presence_shrink (d, t) (d\<lparr>conns := AList.delete c (conns d)\<rparr>, t)"
    unfolding presence_shrink_def by (rule exI[of _ "{}"]) simp
  ultimately show ?thesis
    by (simp add: ext_def same_scalars_def ready_kept_def wire_grows_def)
qed

lemma ext_revoke: "ext lib {} {} (d, t) (d\<lparr>awareness := fst (removeStates ids (awareness d))\<rparr>, t)"
proof -
  have "presence_shrink (d, t) (d\<lparr>awareness := fst (removeStates ids (awareness d))\<rparr>, t)"
    unfolding presence_shrink_def by (rule exI[of _ "set ids"]) (simp add: removeStates_def)
  moreover have "conns_shrink {} (d, t) (d\<lparr>awareness := fst (removeStates ids (awareness d))\<rparr>, t)"
    unfolding conns_shrink_def by (rule exI[of _ "{}"]) simp
  ultimately show ?thesis
    by (simp add: ext_def same_scalars_def ready_kept_def wire_grows_def)
qed

lemma ext_wire:
  assumes "readyState t c = wsReadyStateOpen"
  shows "ext lib {} {(c, m)} (d, t) (d, t\<lparr>wire := wire t @ [(c, m)]\<rparr>)"
proof -
  have "wire_grows lib {(c, m)} (d, t) (d, t\<lparr>wire := wire t @ [(c, m)]\<rparr>)"
    unfolding wire_grows_def by (rule exI[of _ "[(c, m)]"]) (simp add: assms)
  moreover have "conns_shrink {} (d, t) (d, t\<lparr>wire := wire t @ [(c, m)]\<rparr>)"
    unfolding conns_shrink_def by (rule exI[of _ "{}"]) simp
  moreover have "presence_shrink (d, t) (d, t\<lparr>wire := wire t @ [(c, m)]\<rparr>)"
    unfolding presence_shrink_def by (rule exI[of _ "{}"]) simp
  ultimately show ?thesis
    by (simp add: ext_def same_scalars_def ready_kept_def)
qed

lemma closeConn_f_absent:
  "map_of (conns d) c = None \<Longrightarrow> closeConn_f lib n c (d, t) = Some (d, ws_close c t)"
  by (simp add: closeConn_f.simps)

lemma closeConn_f_present:
  assumes "map_of (conns d) c = Some ids"
  shows "closeConn_f lib (Suc k) c (d, t) =
     (let d1 = d\<lparr>conns := AList.delete c (conns d)\<rparr>;
          removed = snd (removeStates ids (awareness d1));
          d2 = d1\<lparr>awareness := fst (removeStates ids (awareness d1))\<rparr>
      in case (if removed = [] then Some (d2, t)
               else forEach_f lib k None (map fst (conns d2))
                      (awarenessFrame lib (awareness d2) removed) (d2, t)) of
           None \<Rightarrow> None
         | Some (d3, t3) \<Rightarrow> Some (d3, ws_close c t3))"
  using assms by (simp add: closeConn_f.simps)

lemma closeConn_step:
  assumes C: "\<And>e cs m d t. length (conns d) \<le> k \<Longrightarrow>
             \<exists>s'. forEach_f lib k e cs m (d, t) = Some s' \<and>
                  ext lib {} {x. fst x \<in> set cs \<and> Some (fst x) \<noteq> e \<and> snd x = m} (d, t) s'"
    and len: "length (conns d) \<le> Suc k"
  shows "\<exists>s'. closeConn_f lib (Suc k) c (d, t) = Some s' \<and> ext lib {c} {} (d, t) s'"
proof (cases "map_of (conns d) c")
  case None
  then show ?thesis by (simp add: closeConn_f_absent ext_ws_close)
next
  case (Some ids)
  define d1 where "d1 = d\<lparr>conns := AList.delete c (conns d)\<rparr>"
  define removed where "removed = snd (removeStates ids (awareness d1))"
  define d2 where "d2 = d1\<lparr>awareness := fst (removeStates ids (awareness d1))\<rparr>"
  have e1: "ext lib {c} {} (d, t) (d1, t)" unfolding d1_def by (rule ext_delete)
  have e2: "ext lib {} {} (d1, t) (d2, t)" unfolding d2_def by (rule ext_revoke)
  have e12: "ext lib {c} {} (d, t) (d2, t)" using ext_trans[OF e1 e2] by simp
  have "c \<in> fst ` set (conns d)" using map_of_SomeD[OF Some] by force
  then have "length (AList.delete c (conns d)) < length (conns d)"
    by (auto simp: delete_filter intro!: length_filter_less)
  then have l2: "length (conns d2) \<le> k" using len by (simp add: d2_def d1_def)
  have "\<exists>s3. (if removed = [] then Some (d2, t)
               else forEach_f lib k None (map fst (conns d2))
                      (awarenessFrame lib (awareness d2) removed) (d2, t)) = Some s3 \<and>
             ext lib {} {} (d2, t) s3"
  proof (cases "removed = []")
    case True
    then show ?thesis by (simp add: ext_refl)
  next
    case False
    from C[OF l2, of None "map fst (conns d2)" "awarenessFrame lib (awareness d2) removed" t]
    obtain s3 where s3: "forEach_f lib k None (map fst (conns d2))
                      (awarenessFrame lib (awareness d2) removed) (d2, t) = Some s3"
       "ext lib {} {x. fst x \<in> set (map fst (conns d2)) \<and> Some (fst x) \<noteq> None \<and>
                       snd x = awarenessFrame lib (awareness d2) removed} (d2, t) s3" by blast
    have "ext lib {} {} (d2, t) s3"
      by (rule ext_aw[OF s3(2)]) (auto simp: isAwarenessFrame_def)
    with s3(1) False show ?thesis by simp
  qed
  then obtain d3 t3 where s3: "(if removed = [] then Some (d2, t)
               else forEach_f lib k None (map fst (conns d2))
                      (awarenessFrame lib (awareness d2) removed) (d2, t)) = Some (d3, t3)"
       "ext lib {} {} (d2, t) (d3, t3)" by force
  have res: "closeConn_f lib (Suc k) c (d, t) = Some (d3, ws_close c t3)"
    unfolding closeConn_f_present[OF Some] Let_def d1_def[symmetric] removed_def[symmetric]
      d2_def[symmetric] s3(1) by simp
  have "ext lib {c} {} (d, t) (d3, ws_close c t3)"
    using ext_trans[OF ext_trans[OF e12 s3(2)] ext_ws_close[of lib c d3 t3]] by simp
  with res show ?thesis by simp
qed

lemma closeConn_zero:
  assumes "length (conns d) \<le> 0"
  shows "\<exists>s'. closeConn_f lib 0 c (d, t) = Some s' \<and> ext lib {c} {} (d, t) s'"
  using assms by (simp add: closeConn_f_absent ext_ws_close)


lemma ws_send_cases:
  "ws_send c m t =
     (if readyState t c = wsReadyStateOpen then (False, t\<lparr>wire := wire t @ [(c, m)]\<rparr>)
      else (readyState t c = wsReadyStateConnecting, t))"
  by (simp add: ws_send_def)

lemma send_step:
  assumes A: "\<And>c d t. length (conns d) \<le> n \<Longrightarrow>
             \<exists>s'. closeConn_f lib n c (d, t) = Some s' \<and> ext lib {c} {} (d, t) s'"
    and len: "length (conns d) \<le> n"
  shows "\<exists>s'. send_f lib n c m (d, t) = Some s' \<and> ext lib {} {(c, m)} (d, t) s'"
proof (cases "readyState t c = wsReadyStateOpen")
  case True
  then have "send_f lib n c m (d, t) = Some (d, t\<lparr>wire := wire t @ [(c, m)]\<rparr>)"
    by (simp add: send_f.simps ws_send_cases)
  then show ?thesis using ext_wire[OF True] by simp
next
  case False
  have first: "\<exists>d1 t1. (if readyState t c \<noteq> wsReadyStateConnecting \<and> readyState t c \<noteq> wsReadyStateOpen
            then closeConn_f lib n c (d, t) else Some (d, t)) = Some (d1, t1) \<and>
            ext lib {} {} (d, t) (d1, t1)"
  proof (cases "readyState t c = wsReadyStateConnecting")
    case True
    then show ?thesis by (simp add: ext_refl)
  next
    case nc: False
    from A[OF len, of c t] obtain s' where s': "closeConn_f lib n c (d, t) = Some s'"
      "ext lib {c} {} (d, t) s'" by blast
    have "ext lib {} {} (d, t) s'" by (rule ext_dead[OF s'(2)]) (simp add: False)
    with s'(1) nc False show ?thesis by (cases s') simp
  qed
  then obtain d1 t1 where f: "(if readyState t c \<noteq> wsReadyStateConnecting \<and> readyState t c \<noteq> wsReadyStateOpen
            then closeConn_f lib n c (d, t) else Some (d, t)) = Some (d1, t1)"
    and e1: "ext lib {} {} (d, t) (d1, t1)" by blast
  have no: "readyState t1 c \<noteq> wsReadyStateOpen"
    using e1 False unfolding ext_def ready_kept_def by simp
  have l1: "length (conns d1) \<le> n" using ext_length[OF e1] len by simp
  have unf: "send_f lib n c m (d, t) =
       (if readyState t1 c = wsReadyStateConnecting then closeConn_f lib n c (d1, t1) else Some (d1, t1))"
    unfolding send_f.simps f using no by (simp add: ws_send_cases)
  show ?thesis
  proof (cases "readyState t1 c = wsReadyStateConnecting")
    case True
    from A[OF l1, of c t1] obtain s' where s': "closeConn_f lib n c (d1, t1) = Some s'"
      "ext lib {c} {} (d1, t1) s'" by blast
    have "ext lib {} {} (d1, t1) s'" by (rule ext_dead[OF s'(2)]) (simp add: no)
    from ext_trans[OF e1 this] have "ext lib {} {(c, m)} (d, t) s'"
      by (auto intro: ext_weaken)
    with s'(1) True unf show ?thesis by simp
  next
    case nc: False
    have "ext lib {} {(c, m)} (d, t) (d1, t1)" using e1 by (auto intro: ext_weaken)
    with nc unf show ?thesis by simp
  qed
qed

lemma forEach_step:
  assumes B: "\<And>c m d t. length (conns d) \<le> n \<Longrightarrow>
             \<exists>s'. send_f lib n c m (d, t) = Some s' \<and> ext lib {} {(c, m)} (d, t) s'"
    and len: "length (conns d) \<le> n"
  shows "\<exists>s'. forEach_f lib n e cs m (d, t) = Some s' \<and>
              ext lib {} {x. fst x \<in> set cs \<and> Some (fst x) \<noteq> e \<and> snd x = m} (d, t) s'"
  using len
proof (induction cs arbitrary: d t)
  case Nil
  then show ?case by (simp add: ext_refl)
next
  case (Cons c cs)
  let ?W = "{x. fst x \<in> set cs \<and> Some (fst x) \<noteq> e \<and> snd x = m}"
  let ?W' = "{x. fst x \<in> set (c # cs) \<and> Some (fst x) \<noteq> e \<and> snd x = m}"
  show ?case
  proof (cases "c \<in> set (map fst (conns d)) \<and> e \<noteq> Some c")
    case True
    from B[OF Cons.prems, of c m t] obtain d1 t1 where s1: "send_f lib n c m (d, t) = Some (d1, t1)"
      "ext lib {} {(c, m)} (d, t) (d1, t1)" by force
    have l1: "length (conns d1) \<le> n" using ext_length[OF s1(2)] Cons.prems by simp
    from Cons.IH[OF l1, of t1] obtain s2 where s2: "forEach_f lib n e cs m (d1, t1) = Some s2"
      "ext lib {} ?W (d1, t1) s2" by blast
    have sub: "{(c, m)} \<union> ?W \<subseteq> ?W'" using True by auto
    have "ext lib {} ?W' (d, t) s2"
      using ext_weaken[OF ext_trans[OF s1(2) s2(2)] _ sub] by simp
    moreover have "forEach_f lib n e (c # cs) m (d, t) = Some s2"
      using True s1(1) s2(1) by (simp add: forEach_f.simps)
    ultimately show ?thesis by simp
  next
    case False
    from Cons.IH[OF Cons.prems, of t] obtain s2 where s2: "forEach_f lib n e cs m (d, t) = Some s2"
      "ext lib {} ?W (d, t) s2" by blast
    have "ext lib {} ?W' (d, t) s2" by (rule ext_weaken[OF s2(2)]) auto
    moreover have "forEach_f lib n e (c # cs) m (d, t) = Some s2"
      using False s2(1) by (auto simp: forEach_f.simps)
    ultimately show ?thesis by simp
  qed
qed

lemma core:
  "(\<forall>c d t. length (conns d) \<le> n \<longrightarrow>
       (\<exists>s'. closeConn_f lib n c (d, t) = Some s' \<and> ext lib {c} {} (d, t) s')) \<and>
   (\<forall>c m d t. length (conns d) \<le> n \<longrightarrow>
       (\<exists>s'. send_f lib n c m (d, t) = Some s' \<and> ext lib {} {(c, m)} (d, t) s')) \<and>
   (\<forall>e cs m d t. length (conns d) \<le> n \<longrightarrow>
       (\<exists>s'. forEach_f lib n e cs m (d, t) = Some s' \<and>
             ext lib {} {x. fst x \<in> set cs \<and> Some (fst x) \<noteq> e \<and> snd x = m} (d, t) s'))"
proof (induction n)
  case 0
  have A: "\<And>c d t. length (conns d) \<le> 0 \<Longrightarrow>
       \<exists>s'. closeConn_f lib 0 c (d, t) = Some s' \<and> ext lib {c} {} (d, t) s'"
    by (rule closeConn_zero)
  have B: "\<And>c m d t. length (conns d) \<le> 0 \<Longrightarrow>
       \<exists>s'. send_f lib 0 c m (d, t) = Some s' \<and> ext lib {} {(c, m)} (d, t) s'"
    by (rule send_step[OF A])
  have C: "\<And>e cs m d t. length (conns d) \<le> 0 \<Longrightarrow>
       \<exists>s'. forEach_f lib 0 e cs m (d, t) = Some s' \<and>
             ext lib {} {x. fst x \<in> set cs \<and> Some (fst x) \<noteq> e \<and> snd x = m} (d, t) s'"
    by (rule forEach_step[OF B])
  from A B C show ?case by blast
next
  case (Suc k)
  then have C0: "\<And>e cs m d t. length (conns d) \<le> k \<Longrightarrow>
       \<exists>s'. forEach_f lib k e cs m (d, t) = Some s' \<and>
             ext lib {} {x. fst x \<in> set cs \<and> Some (fst x) \<noteq> e \<and> snd x = m} (d, t) s'"
    by blast
  have A: "\<And>c d t. length (conns d) \<le> Suc k \<Longrightarrow>
       \<exists>s'. closeConn_f lib (Suc k) c (d, t) = Some s' \<and> ext lib {c} {} (d, t) s'"
    by (rule closeConn_step[OF C0])
  have B: "\<And>c m d t. length (conns d) \<le> Suc k \<Longrightarrow>
       \<exists>s'. send_f lib (Suc k) c m (d, t) = Some s' \<and> ext lib {} {(c, m)} (d, t) s'"
    by (rule send_step[OF A])
  have C: "\<And>e cs m d t. length (conns d) \<le> Suc k \<Longrightarrow>
       \<exists>s'. forEach_f lib (Suc k) e cs m (d, t) = Some s' \<and>
             ext lib {} {x. fst x \<in> set cs \<and> Some (fst x) \<noteq> e \<and> snd x = m} (d, t) s'"
    by (rule forEach_step[OF B])
  from A B C show ?case by blast
qed

lemma core_closeConn:
  "length (conns d) \<le> n \<Longrightarrow> \<exists>s'. closeConn_f lib n c (d, t) = Some s' \<and> ext lib {c} {} (d, t) s'"
  using core[of n lib] by blast

lemma core_send:
  "length (conns d) \<le> n \<Longrightarrow> \<exists>s'. send_f lib n c m (d, t) = Some s' \<and> ext lib {} {(c, m)} (d, t) s'"
  using core[of n lib] by blast

lemma core_forEach:
  "length (conns d) \<le> n \<Longrightarrow>
   \<exists>s'. forEach_f lib n e cs m (d, t) = Some s' \<and>
        ext lib {} {x. fst x \<in> set cs \<and> Some (fst x) \<noteq> e \<and> snd x = m} (d, t) s'"
  using core[of n lib] by blast

lemma closeConn_ok: "\<exists>s'. closeConn lib c s = Some s' \<and> ext lib {c} {} s s'"
  using core_closeConn[of "fst s" "length (conns (fst s))" lib c "snd s"]
  by (simp add: closeConn_def)

lemma send_ok: "\<exists>s'. send lib c m s = Some s' \<and> ext lib {} {(c, m)} s s'"
  using core_send[of "fst s" "length (conns (fst s))" lib c m "snd s"]
  by (simp add: send_def)

lemma forEachSend_ok:
  "\<exists>s'. forEachSend lib e m s = Some s' \<and>
        ext lib {} {x. fst x \<in> set (map fst (conns (fst s))) \<and> Some (fst x) \<noteq> e \<and> snd x = m} s s'"
  using core_forEach[of "fst s" "length (conns (fst s))" lib e "map fst (conns (fst s))" m "snd s"]
  by (simp add: forEachSend_def)

text \<open>An open connection that a handler may not close keeps its place in the room.\<close>

lemma map_of_filter_keys:
  "c \<notin> X \<Longrightarrow> map_of (filter (\<lambda>e. fst e \<notin> X) xs) c = map_of xs c"
  by (induction xs) auto

lemma ext_keeps_open:
  assumes "ext lib A W s s'" "c \<notin> A" "readyState (snd s) c = wsReadyStateOpen"
  shows "map_of (conns (fst s')) c = map_of (conns (fst s)) c"
    and "readyState (snd s') c = wsReadyStateOpen"
proof -
  from assms(1) obtain X where X: "X \<subseteq> A \<union> {c. readyState (snd s) c \<noteq> wsReadyStateOpen}"
    "conns (fst s') = filter (\<lambda>e. fst e \<notin> X) (conns (fst s))"
    unfolding ext_def conns_shrink_def by blast
  have "c \<notin> X" using X(1) assms(2,3) by blast
  then show "map_of (conns (fst s')) c = map_of (conns (fst s)) c"
    by (simp add: X(2) map_of_filter_keys)
  show "readyState (snd s') c = wsReadyStateOpen"
    using assms unfolding ext_def ready_kept_def by blast
qed

lemma ext_keys_subset:
  "ext lib A W s s' \<Longrightarrow> set (conns (fst s')) \<subseteq> set (conns (fst s))"
  unfolding ext_def conns_shrink_def by auto

lemma ext_presence_subset:
  "ext lib A W s s' \<Longrightarrow> set (awareness (fst s')) \<subseteq> set (awareness (fst s))"
  unfolding ext_def presence_shrink_def by auto

lemma ext_wire_prefix:
  "ext lib A W s s' \<Longrightarrow> \<exists>fs. wire (snd s') = wire (snd s) @ fs"
  unfolding ext_def wire_grows_def by blast

text \<open>A broadcast reaches every open connection of the room it does not leave out, and
  every connection it finds not open has left the room afterwards.\<close>

lemma send_f_open:
  "readyState t c = wsReadyStateOpen \<Longrightarrow>
   send_f lib n c m (d, t) = Some (d, t\<lparr>wire := wire t @ [(c, m)]\<rparr>)"
  by (simp add: send_f.simps ws_send_cases)

lemma in_keys_map_of: "c \<in> fst ` set xs \<longleftrightarrow> map_of xs c \<noteq> None"
  by (simp add: map_of_eq_None_iff)

lemma ext_not_open:
  "ext lib A W s s' \<Longrightarrow> readyState (snd s) c \<noteq> wsReadyStateOpen
   \<Longrightarrow> readyState (snd s') c \<noteq> wsReadyStateOpen"
  unfolding ext_def ready_kept_def by blast

lemma ext_gone_stays_gone:
  "ext lib A W s s' \<Longrightarrow> c \<notin> fst ` set (conns (fst s)) \<Longrightarrow> c \<notin> fst ` set (conns (fst s'))"
  using ext_keys_subset by fastforce

lemma ext_revoked_stays:
  "ext lib A W s s' \<Longrightarrow> i \<notin> fst ` set (awareness (fst s)) \<Longrightarrow> i \<notin> fst ` set (awareness (fst s'))"
  using ext_presence_subset by fastforce

lemma closeConn_f_gone:
  assumes len: "length (conns d) \<le> n" and res: "closeConn_f lib n c (d, t) = Some (d', t')"
  shows "c \<notin> fst ` set (conns d')"
    and "map_of (conns d) c = Some ids \<Longrightarrow> \<forall>i \<in> set ids. i \<notin> fst ` set (awareness d')"
proof -
  have both: "c \<notin> fst ` set (conns d') \<and>
              (map_of (conns d) c = Some ids \<longrightarrow> (\<forall>i \<in> set ids. i \<notin> fst ` set (awareness d')))"
  proof (cases "map_of (conns d) c")
    case None
    then have "d' = d" using res by (simp add: closeConn_f_absent)
    with None show ?thesis by (simp add: in_keys_map_of)
  next
    case (Some ids')
    then have "conns d \<noteq> []" by auto
    with len obtain k where n: "n = Suc k" by (cases n) auto
    define d1 where "d1 = d\<lparr>conns := AList.delete c (conns d)\<rparr>"
    define removed where "removed = snd (removeStates ids' (awareness d1))"
    define d2 where "d2 = d1\<lparr>awareness := fst (removeStates ids' (awareness d1))\<rparr>"
    have c2: "c \<notin> fst ` set (conns d2)" by (auto simp: d2_def d1_def delete_filter)
    have a2: "\<forall>i \<in> set ids'. i \<notin> fst ` set (awareness d2)"
      by (auto simp: d2_def removeStates_def)
    have "c \<in> fst ` set (conns d)" using map_of_SomeD[OF Some] by force
    then have "length (AList.delete c (conns d)) < length (conns d)"
      by (auto simp: delete_filter intro!: length_filter_less)
    then have l2: "length (conns d2) \<le> k" using len n by (simp add: d2_def d1_def)
    have "\<exists>s3. (if removed = [] then Some (d2, t)
               else forEach_f lib k None (map fst (conns d2))
                      (awarenessFrame lib (awareness d2) removed) (d2, t)) = Some s3 \<and>
             (\<exists>W. ext lib {} W (d2, t) s3)"
    proof (cases "removed = []")
      case True
      then show ?thesis using ext_refl[of lib "{}" "{}" "(d2, t)"] by auto
    next
      case False
      from core_forEach[OF l2, of lib None "map fst (conns d2)" "awarenessFrame lib (awareness d2) removed" t]
      show ?thesis using False by auto
    qed
    then obtain d3 t3 W where s3: "(if removed = [] then Some (d2, t)
               else forEach_f lib k None (map fst (conns d2))
                      (awarenessFrame lib (awareness d2) removed) (d2, t)) = Some (d3, t3)"
       "ext lib {} W (d2, t) (d3, t3)" by force
    have "closeConn_f lib (Suc k) c (d, t) = Some (d3, ws_close c t3)"
      unfolding closeConn_f_present[OF Some] Let_def d1_def[symmetric] removed_def[symmetric]
        d2_def[symmetric] s3(1) by simp
    with res n have d': "d' = d3" by simp
    from ext_gone_stays_gone[OF s3(2)] c2 have "c \<notin> fst ` set (conns d3)" by simp
    moreover have "\<forall>i \<in> set ids'. i \<notin> fst ` set (awareness d3)"
      using ext_revoked_stays[OF s3(2)] a2 by simp
    ultimately show ?thesis using Some d' by simp
  qed
  from both show "c \<notin> fst ` set (conns d')" by simp
  from both show "map_of (conns d) c = Some ids \<Longrightarrow> \<forall>i \<in> set ids. i \<notin> fst ` set (awareness d')"
    by simp
qed

lemma send_f_dead_gone:
  assumes len: "length (conns d) \<le> n" and dead: "readyState t c \<noteq> wsReadyStateOpen"
    and res: "send_f lib n c m (d, t) = Some (d', t')"
  shows "c \<notin> fst ` set (conns d')"
    and "map_of (conns d) c = Some ids \<Longrightarrow> \<forall>i \<in> set ids. i \<notin> fst ` set (awareness d')"
proof -
  have both: "c \<notin> fst ` set (conns d') \<and>
              (map_of (conns d) c = Some ids \<longrightarrow> (\<forall>i \<in> set ids. i \<notin> fst ` set (awareness d')))"
  proof (cases "readyState t c = wsReadyStateConnecting")
    case True
    then have "send_f lib n c m (d, t) = closeConn_f lib n c (d, t)"
      using dead by (simp add: send_f.simps ws_send_cases)
    with res have "closeConn_f lib n c (d, t) = Some (d', t')" by simp
    from closeConn_f_gone[OF len this] show ?thesis by blast
  next
    case False
    from core_closeConn[OF len, of lib c t] obtain d1 t1 where
      s1: "closeConn_f lib n c (d, t) = Some (d1, t1)" "ext lib {c} {} (d, t) (d1, t1)" by force
    note g1 = closeConn_f_gone[OF len s1(1)]
    have no: "readyState t1 c \<noteq> wsReadyStateOpen" using ext_not_open[OF s1(2), of c] dead by simp
    have l1: "length (conns d1) \<le> n" using ext_length[OF s1(2)] len by simp
    have unf: "send_f lib n c m (d, t) =
       (if readyState t1 c = wsReadyStateConnecting then closeConn_f lib n c (d1, t1) else Some (d1, t1))"
      unfolding send_f.simps using False dead no s1(1) by (simp add: ws_send_cases)
    show ?thesis
    proof (cases "readyState t1 c = wsReadyStateConnecting")
      case True
      with unf res have r2: "closeConn_f lib n c (d1, t1) = Some (d', t')" by simp
      from core_closeConn[OF l1, of lib c t1] r2 have e2: "ext lib {c} {} (d1, t1) (d', t')" by simp
      from ext_gone_stays_gone[OF e2] g1(1) have "c \<notin> fst ` set (conns d')" by simp
      moreover have "map_of (conns d) c = Some ids \<longrightarrow> (\<forall>i \<in> set ids. i \<notin> fst ` set (awareness d'))"
        using g1(2)[of ids] ext_revoked_stays[OF e2] by auto
      ultimately show ?thesis by simp
    next
      case nc: False
      with unf res have "d' = d1" by simp
      with g1 show ?thesis by blast
    qed
  qed
  from both show "c \<notin> fst ` set (conns d')" by simp
  from both show "map_of (conns d) c = Some ids \<Longrightarrow> \<forall>i \<in> set ids. i \<notin> fst ` set (awareness d')"
    by simp
qed

lemma forEach_deliver:
  assumes len: "length (conns d) \<le> n" and res: "forEach_f lib n e cs m (d, t) = Some (d', t')"
  shows "\<exists>fs. wire t' = wire t @ fs \<and>
          (\<forall>c \<in> set cs. c \<in> fst ` set (conns d) \<and> Some c \<noteq> e \<longrightarrow>
               (if readyState t c = wsReadyStateOpen then (c, m) \<in> set fs
                else c \<notin> fst ` set (conns d')))"
  using len res
proof (induction cs arbitrary: d t)
  case Nil
  then show ?case by simp
next
  case (Cons c cs)
  show ?case
  proof (cases "c \<in> set (map fst (conns d)) \<and> e \<noteq> Some c")
    case False
    then have "forEach_f lib n e (c # cs) m (d, t) = forEach_f lib n e cs m (d, t)"
      by (auto simp: forEach_f.simps)
    with Cons.prems(2) have r: "forEach_f lib n e cs m (d, t) = Some (d', t')" by simp
    from Cons.IH[OF Cons.prems(1) r] obtain fs where fs: "wire t' = wire t @ fs"
      "\<forall>c \<in> set cs. c \<in> fst ` set (conns d) \<and> Some c \<noteq> e \<longrightarrow>
               (if readyState t c = wsReadyStateOpen then (c, m) \<in> set fs
                else c \<notin> fst ` set (conns d'))" by blast
    have "\<forall>c' \<in> set (c # cs). c' \<in> fst ` set (conns d) \<and> Some c' \<noteq> e \<longrightarrow>
               (if readyState t c' = wsReadyStateOpen then (c', m) \<in> set fs
                else c' \<notin> fst ` set (conns d'))"
    proof (intro ballI impI)
      fix c' assume "c' \<in> set (c # cs)" and h: "c' \<in> fst ` set (conns d) \<and> Some c' \<noteq> e"
      with False have "c' \<in> set cs" by auto
      with fs(2) h show "if readyState t c' = wsReadyStateOpen then (c', m) \<in> set fs
                else c' \<notin> fst ` set (conns d')" by blast
    qed
    with fs(1) show ?thesis by blast
  next
    case True
    from core_send[OF Cons.prems(1), of lib c m t] obtain d1 t1 where
      s1: "send_f lib n c m (d, t) = Some (d1, t1)" "ext lib {} {(c, m)} (d, t) (d1, t1)" by force
    have l1: "length (conns d1) \<le> n" using ext_length[OF s1(2)] Cons.prems(1) by simp
    have "forEach_f lib n e (c # cs) m (d, t) = forEach_f lib n e cs m (d1, t1)"
      using True s1(1) by (simp add: forEach_f.simps)
    with Cons.prems(2) have r: "forEach_f lib n e cs m (d1, t1) = Some (d', t')" by simp
    from Cons.IH[OF l1 r] obtain fs2 where fs2: "wire t' = wire t1 @ fs2"
      "\<forall>c \<in> set cs. c \<in> fst ` set (conns d1) \<and> Some c \<noteq> e \<longrightarrow>
               (if readyState t1 c = wsReadyStateOpen then (c, m) \<in> set fs2
                else c \<notin> fst ` set (conns d'))" by blast
    from ext_wire_prefix[OF s1(2)] obtain fs1 where fs1: "wire t1 = wire t @ fs1" by auto
    from core_forEach[OF l1, of lib e cs m t1] r obtain W where e2: "ext lib {} W (d1, t1) (d', t')"
      by auto
    have head: "if readyState t c = wsReadyStateOpen then (c, m) \<in> set (fs1 @ fs2)
                else c \<notin> fst ` set (conns d')"
    proof (cases "readyState t c = wsReadyStateOpen")
      case o: True
      from send_f_open[OF o, of lib n m d] s1(1) have "t1 = t\<lparr>wire := wire t @ [(c, m)]\<rparr>" by simp
      with fs1 have "fs1 = [(c, m)]" by simp
      with o show ?thesis by simp
    next
      case o: False
      from send_f_dead_gone(1)[OF Cons.prems(1) o s1(1)] have "c \<notin> fst ` set (conns d1)" .
      from ext_gone_stays_gone[OF e2] this have "c \<notin> fst ` set (conns d')" by simp
      with o show ?thesis by simp
    qed
    have tail: "\<forall>c' \<in> set cs. c' \<in> fst ` set (conns d) \<and> Some c' \<noteq> e \<longrightarrow>
               (if readyState t c' = wsReadyStateOpen then (c', m) \<in> set (fs1 @ fs2)
                else c' \<notin> fst ` set (conns d'))"
    proof (intro ballI impI)
      fix c' assume c': "c' \<in> set cs" and h: "c' \<in> fst ` set (conns d) \<and> Some c' \<noteq> e"
      show "if readyState t c' = wsReadyStateOpen then (c', m) \<in> set (fs1 @ fs2)
                else c' \<notin> fst ` set (conns d')"
      proof (cases "readyState t c' = wsReadyStateOpen")
        case o: True
        from ext_keeps_open[OF s1(2) _ _, of c'] o
        have k: "map_of (conns d1) c' = map_of (conns d) c'" "readyState t1 c' = wsReadyStateOpen"
          by simp_all
        have "c' \<in> fst ` set (conns d1)" using h k(1) by (simp add: in_keys_map_of)
        with fs2(2) c' h k(2) have "(c', m) \<in> set fs2" by auto
        with o show ?thesis by simp
      next
        case o: False
        have no: "readyState t1 c' \<noteq> wsReadyStateOpen" using ext_not_open[OF s1(2), of c'] o by simp
        have "c' \<notin> fst ` set (conns d')"
        proof (cases "c' \<in> fst ` set (conns d1)")
          case True
          with fs2(2) c' h no show ?thesis by auto
        next
          case False
          from ext_gone_stays_gone[OF e2] False show ?thesis by simp
        qed
        with o show ?thesis by simp
      qed
    qed
    have w: "wire t' = wire t @ (fs1 @ fs2)" using fs1 fs2(1) by simp
    have "\<forall>c' \<in> set (c # cs). c' \<in> fst ` set (conns d) \<and> Some c' \<noteq> e \<longrightarrow>
               (if readyState t c' = wsReadyStateOpen then (c', m) \<in> set (fs1 @ fs2)
                else c' \<notin> fst ` set (conns d'))"
    proof (intro ballI impI)
      fix c' assume "c' \<in> set (c # cs)" and h: "c' \<in> fst ` set (conns d) \<and> Some c' \<noteq> e"
      then consider "c' = c" | "c' \<in> set cs" by auto
      then show "if readyState t c' = wsReadyStateOpen then (c', m) \<in> set (fs1 @ fs2)
                else c' \<notin> fst ` set (conns d')"
      proof cases
        case 1
        with head show ?thesis by blast
      next
        case 2
        with tail h show ?thesis by blast
      qed
    qed
    with w show ?thesis by blast
  qed
qed

subsection \<open>The handlers on the server's state\<close>

lemma forEach_all_open:
  assumes "\<forall>c \<in> set cs. c \<in> fst ` set (conns d) \<and> Some c \<noteq> e \<longrightarrow> readyState t c = wsReadyStateOpen"
  shows "forEach_f lib n e cs m (d, t) =
           Some (d, t\<lparr>wire := wire t @ map (\<lambda>c. (c, m))
                          (filter (\<lambda>c. c \<in> fst ` set (conns d) \<and> Some c \<noteq> e) cs)\<rparr>)"
  using assms
proof (induction cs arbitrary: t)
  case Nil
  then show ?case by simp
next
  case (Cons c cs)
  show ?case
  proof (cases "c \<in> fst ` set (conns d) \<and> Some c \<noteq> e")
    case True
    with Cons.prems have o: "readyState t c = wsReadyStateOpen" by simp
    let ?t1 = "t\<lparr>wire := wire t @ [(c, m)]\<rparr>"
    have p: "\<forall>c \<in> set cs. c \<in> fst ` set (conns d) \<and> Some c \<noteq> e \<longrightarrow> readyState ?t1 c = wsReadyStateOpen"
      using Cons.prems by simp
    have "forEach_f lib n e (c # cs) m (d, t) = forEach_f lib n e cs m (d, ?t1)"
      using True by (auto simp: forEach_f.simps send_f_open[OF o])
    also have "\<dots> = Some (d, ?t1\<lparr>wire := wire ?t1 @ map (\<lambda>c. (c, m))
                          (filter (\<lambda>c. c \<in> fst ` set (conns d) \<and> Some c \<noteq> e) cs)\<rparr>)"
      by (rule Cons.IH[OF p])
    finally show ?thesis using True by simp
  next
    case False
    have p: "\<forall>c \<in> set cs. c \<in> fst ` set (conns d) \<and> Some c \<noteq> e \<longrightarrow> readyState t c = wsReadyStateOpen"
      using Cons.prems by simp
    have "forEach_f lib n e (c # cs) m (d, t) = forEach_f lib n e cs m (d, t)"
      using False by (auto simp: forEach_f.simps)
    with Cons.IH[OF p] False show ?thesis by simp
  qed
qed

lemma map_of_update_same: "map_of (AList.update k v al) k = Some v"
  by (simp add: update_conv')

lemma map_of_update_other: "k' \<noteq> k \<Longrightarrow> map_of (AList.update k v al) k' = map_of al k'"
  by (simp add: update_conv')

lemma put_room_Some:
  "put_room r w (Some (d, t)) = Some w' \<Longrightarrow>
   map_of (docs w') r = Some d \<and> net w' = t \<and> persist w' = persist w \<and> exited w' = exited w \<and>
   (\<forall>r'. r' \<noteq> r \<longrightarrow> map_of (docs w') r' = map_of (docs w) r')"
  by (auto simp: put_room_def map_of_update_same map_of_update_other)

lemma isEncryptedSync_imp: "isEncryptedSyncMessage m \<Longrightarrow> isEncryptedMessage m"
  by (auto simp: isEncryptedSyncMessage_def isEncryptedMessage_def split: list.splits)

lemma encrypted_sync_unfold:
  assumes "map_of (docs w) r = Some doc" "isEncryptedSyncMessage m"
  shows "messageListener lib a r m w =
     put_room r (w\<lparr>persist := scheduleSave (name doc) (encryptedGetter r) (persist w)\<rparr>)
       (forEachSend lib (Some a) m (doc\<lparr>isEncrypted := True, encryptedState := Some m\<rparr>, net w))"
  using assms
  by (simp add: messageListener_def isEncryptedSync_imp Let_def broadcastEncryptedMessage_def)


lemma forEachSend_deliver:
  assumes "forEachSend lib e m (d, t) = Some (d', t')"
  shows "\<exists>fs. wire t' = wire t @ fs \<and>
          (\<forall>c \<in> fst ` set (conns d). Some c \<noteq> e \<longrightarrow>
               (if readyState t c = wsReadyStateOpen then (c, m) \<in> set fs
                else c \<notin> fst ` set (conns d'))) \<and>
          (\<forall>x \<in> set fs. readyState t (fst x) = wsReadyStateOpen \<and>
               ((fst x \<in> fst ` set (conns d) \<and> Some (fst x) \<noteq> e \<and> snd x = m) \<or>
                isAwarenessFrame lib (snd x)))"
proof -
  have r: "forEach_f lib (length (conns d)) e (map fst (conns d)) m (d, t) = Some (d', t')"
    using assms by (simp add: forEachSend_def)
  from forEach_deliver[OF le_refl r] obtain fs where fs: "wire t' = wire t @ fs"
    "\<forall>c \<in> set (map fst (conns d)). c \<in> fst ` set (conns d) \<and> Some c \<noteq> e \<longrightarrow>
               (if readyState t c = wsReadyStateOpen then (c, m) \<in> set fs
                else c \<notin> fst ` set (conns d'))" by blast
  from forEachSend_ok[of lib e m "(d, t)"] assms
  have "ext lib {} {x. fst x \<in> set (map fst (conns d)) \<and> Some (fst x) \<noteq> e \<and> snd x = m} (d, t) (d', t')"
    by simp
  then obtain gs where gs: "wire t' = wire t @ gs"
    "\<forall>x \<in> set gs. readyState t (fst x) = wsReadyStateOpen \<and>
        (x \<in> {x. fst x \<in> set (map fst (conns d)) \<and> Some (fst x) \<noteq> e \<and> snd x = m} \<or>
         isAwarenessFrame lib (snd x))"
    unfolding ext_def wire_grows_def by auto
  from fs(1) gs(1) have "gs = fs" by simp
  with gs(2) have 3: "\<forall>x \<in> set fs. readyState t (fst x) = wsReadyStateOpen \<and>
               ((fst x \<in> fst ` set (conns d) \<and> Some (fst x) \<noteq> e \<and> snd x = m) \<or>
                isAwarenessFrame lib (snd x))" by simp
  have 2: "\<forall>c \<in> fst ` set (conns d). Some c \<noteq> e \<longrightarrow>
               (if readyState t c = wsReadyStateOpen then (c, m) \<in> set fs
                else c \<notin> fst ` set (conns d'))"
  proof (intro ballI impI)
    fix c assume c: "c \<in> fst ` set (conns d)" "Some c \<noteq> e"
    then have "c \<in> set (map fst (conns d))" by simp
    with fs(2) c show "if readyState t c = wsReadyStateOpen then (c, m) \<in> set fs
                else c \<notin> fst ` set (conns d')" by blast
  qed
  from fs(1) 2 3 show ?thesis by blast
qed

lemma forEachSend_all_open:
  assumes "\<forall>c \<in> fst ` set (conns d). Some c \<noteq> e \<longrightarrow> readyState t c = wsReadyStateOpen"
  shows "forEachSend lib e m (d, t) =
           Some (d, t\<lparr>wire := wire t @ map (\<lambda>c. (c, m)) (filter (\<lambda>c. Some c \<noteq> e) (map fst (conns d)))\<rparr>)"
proof -
  have a: "\<forall>c \<in> set (map fst (conns d)). c \<in> fst ` set (conns d) \<and> Some c \<noteq> e \<longrightarrow> readyState t c = wsReadyStateOpen"
    using assms by simp
  have "filter (\<lambda>c. c \<in> fst ` set (conns d) \<and> Some c \<noteq> e) (map fst (conns d)) =
        filter (\<lambda>c. Some c \<noteq> e) (map fst (conns d))"
    by (rule filter_cong) auto
  then show ?thesis
    unfolding forEachSend_def using forEach_all_open[OF a, of lib "length (conns d)" m]
    by simp
qed

lemma closed_out_from_ext:
  assumes e: "ext lib {c} W s s'"
    and g: "c \<notin> fst ` set (conns (fst s'))" "\<forall>i \<in> set ids. i \<notin> fst ` set (awareness (fst s'))"
  shows "closed_out c ids s s'"
proof -
  have k: "\<forall>c'. c' \<noteq> c \<and> readyState (snd s) c' = wsReadyStateOpen \<longrightarrow>
            map_of (conns (fst s')) c' = map_of (conns (fst s)) c' \<and>
            readyState (snd s') c' = wsReadyStateOpen"
    using ext_keeps_open[OF e] by simp
  have sc: "name (fst s') = name (fst s) \<and> ydoc (fst s') = ydoc (fst s) \<and>
      encryptedState (fst s') = encryptedState (fst s) \<and> isEncrypted (fst s') = isEncrypted (fst s)"
    using e unfolding ext_def same_scalars_def by simp
  show ?thesis
    unfolding closed_out_def
    using g k sc ext_keys_subset[OF e] ext_presence_subset[OF e] by blast
qed

lemma ext_same_mode: "ext lib A W s s' \<Longrightarrow> same_mode s s'"
  by (simp add: ext_def same_scalars_def same_mode_def)

lemma ext_ydoc: "ext lib A W s s' \<Longrightarrow> ydoc (fst s') = ydoc (fst s)"
  by (simp add: ext_def same_scalars_def)

lemma same_mode_refl: "same_mode s s"
  by (simp add: same_mode_def)

lemma same_mode_trans: "same_mode s s1 \<Longrightarrow> same_mode s1 s2 \<Longrightarrow> same_mode s s2"
  by (simp add: same_mode_def)

lemma updateHandlers_ok:
  "\<exists>s'. updateHandlers lib us s = Some s' \<and> ext lib {} UNIV s s'"
proof (induction us arbitrary: s)
  case Nil
  then show ?case by (simp add: ext_refl)
next
  case (Cons u us)
  from forEachSend_ok[of lib None "updateFrame lib u" s] obtain s1 where
    s1: "updateHandler lib u s = Some s1" and e1: "ext lib {} UNIV s s1"
    by (auto simp: updateHandler_def intro: ext_weaken)
  from Cons.IH[of s1] obtain s2 where s2: "updateHandlers lib us s1 = Some s2"
    and e2: "ext lib {} UNIV s1 s2" by blast
  from ext_trans[OF e1 e2] have "ext lib {} UNIV s s2" by simp
  with s1 s2 show ?case by simp
qed

lemma updateHandlers_deliver:
  assumes "updateHandlers lib us (d, t) = Some (d', t')"
  shows "\<exists>fs. wire t' = wire t @ fs \<and>
           (\<forall>u \<in> set us. \<forall>c \<in> fst ` set (conns d). readyState t c = wsReadyStateOpen
               \<longrightarrow> (c, updateFrame lib u) \<in> set fs)"
  using assms
proof (induction us arbitrary: d t)
  case Nil
  then show ?case by simp
next
  case (Cons u us)
  from forEachSend_ok[of lib None "updateFrame lib u" "(d, t)"] obtain d1 t1 where
    s1: "forEachSend lib None (updateFrame lib u) (d, t) = Some (d1, t1)"
    and e1: "ext lib {} {x. fst x \<in> set (map fst (conns (fst (d, t)))) \<and> Some (fst x) \<noteq> None \<and>
                snd x = updateFrame lib u} (d, t) (d1, t1)" by force
  from Cons.prems s1 have r: "updateHandlers lib us (d1, t1) = Some (d', t')"
    by (simp add: updateHandler_def)
  from forEachSend_deliver[OF s1] obtain fs1 where fs1: "wire t1 = wire t @ fs1"
    "\<forall>c \<in> fst ` set (conns d). Some c \<noteq> None \<longrightarrow>
               (if readyState t c = wsReadyStateOpen then (c, updateFrame lib u) \<in> set fs1
                else c \<notin> fst ` set (conns d1))" by blast
  from Cons.IH[OF r] obtain fs2 where fs2: "wire t' = wire t1 @ fs2"
    "\<forall>u \<in> set us. \<forall>c \<in> fst ` set (conns d1). readyState t1 c = wsReadyStateOpen
               \<longrightarrow> (c, updateFrame lib u) \<in> set fs2" by blast
  have w: "wire t' = wire t @ (fs1 @ fs2)" using fs1(1) fs2(1) by simp
  have "\<forall>u' \<in> set (u # us). \<forall>c \<in> fst ` set (conns d). readyState t c = wsReadyStateOpen
               \<longrightarrow> (c, updateFrame lib u') \<in> set (fs1 @ fs2)"
  proof (intro ballI impI)
    fix u' c assume u': "u' \<in> set (u # us)" and c: "c \<in> fst ` set (conns d)"
      and o: "readyState t c = wsReadyStateOpen"
    from u' consider "u' = u" | "u' \<in> set us" by auto
    then show "(c, updateFrame lib u') \<in> set (fs1 @ fs2)"
    proof cases
      case 1
      from fs1(2) c o have "(c, updateFrame lib u) \<in> set fs1" by auto
      with 1 show ?thesis by simp
    next
      case 2
      from ext_keeps_open[OF e1, of c] o
      have k: "map_of (conns d1) c = map_of (conns d) c" "readyState t1 c = wsReadyStateOpen"
        by simp_all
      have "c \<in> fst ` set (conns d1)" using c k(1) by (simp add: in_keys_map_of)
      with fs2(2) 2 k(2) have "(c, updateFrame lib u') \<in> set fs2" by blast
      then show ?thesis by simp
    qed
  qed
  with w show ?case by blast
qed

lemma awarenessChangeHandler_ok:
  "\<exists>s'. awarenessChangeHandler lib added updated removed origin s = Some s' \<and>
        same_mode s s' \<and> ydoc (fst s') = ydoc (fst s)"
proof -
  define d1 where "d1 = (case origin of
                  None \<Rightarrow> fst s
                | Some c \<Rightarrow>
                    (case map_of (conns (fst s)) c of
                       None \<Rightarrow> fst s
                     | Some connControlledIDs \<Rightarrow>
                         (fst s)\<lparr>conns := AList.update c
                              (fold removeAll removed (fold set_add added connControlledIDs))
                              (conns (fst s))\<rparr>))"
  have m: "same_mode s (d1, snd s)" "ydoc d1 = ydoc (fst s)"
    by (auto simp: d1_def same_mode_def split: option.splits)
  from forEachSend_ok[of lib None "awarenessFrame lib (awareness d1) (added @ updated @ removed)" "(d1, snd s)"]
  obtain s' where s': "forEachSend lib None (awarenessFrame lib (awareness d1) (added @ updated @ removed)) (d1, snd s) = Some s'"
    and e: "\<exists>W. ext lib {} W (d1, snd s) s'" by blast
  from e obtain W where e': "ext lib {} W (d1, snd s) s'" by blast
  have "awarenessChangeHandler lib added updated removed origin s = Some s'"
    using s' by (simp add: awarenessChangeHandler_def Let_def d1_def)
  moreover have "same_mode s s'" using same_mode_trans[OF m(1) ext_same_mode[OF e']] .
  moreover have "ydoc (fst s') = ydoc (fst s)" using ext_ydoc[OF e'] m(2) by simp
  ultimately show ?thesis by blast
qed

lemma legacy_sync:
  assumes "readVarUint lib m = Some (messageSync, rest)" "readVarUint lib rest = Some ty"
  shows "\<exists>d' t' fs. legacyMessage lib c m (d, t) = Some (d', t') \<and> same_mode (d, t) (d', t') \<and>
           ydoc d' = sr_doc (readSyncMessage lib rest (ydoc d)) \<and> wire t' = wire t @ fs \<and>
           (\<forall>u \<in> set (sr_updates (readSyncMessage lib rest (ydoc d))).
              \<forall>c' \<in> fst ` set (conns d). readyState t c' = wsReadyStateOpen
                \<longrightarrow> (c', updateFrame lib u) \<in> set fs)"
proof -
  define r where "r = readSyncMessage lib rest (ydoc d)"
  define d1 where "d1 = d\<lparr>ydoc := sr_doc r\<rparr>"
  from updateHandlers_ok[of lib "sr_updates r" "(d1, t)"] obtain d2 t2 where
    s2: "updateHandlers lib (sr_updates r) (d1, t) = Some (d2, t2)"
    and e2: "ext lib {} UNIV (d1, t) (d2, t2)" by force
  from updateHandlers_deliver[OF s2] obtain fs where fs: "wire t2 = wire t @ fs"
    "\<forall>u \<in> set (sr_updates r). \<forall>c \<in> fst ` set (conns d1). readyState t c = wsReadyStateOpen
               \<longrightarrow> (c, updateFrame lib u) \<in> set fs" by blast
  have m2: "same_mode (d, t) (d2, t2)" "ydoc d2 = sr_doc r"
    using ext_same_mode[OF e2] ext_ydoc[OF e2] by (simp_all add: same_mode_def d1_def)
  let ?reply = "\<lambda>reply. writeVarUint lib messageSync @ reply"
  have unf: "legacyMessage lib c m (d, t) =
     (case sr_reply r of
        None \<Rightarrow> Some (d2, t2)
      | Some reply \<Rightarrow> if length (?reply reply) > 1 then send lib c (?reply reply) (d2, t2)
                      else Some (d2, t2))"
    using assms s2 by (simp add: legacyMessage_def Let_def r_def[symmetric] d1_def[symmetric])
  have fin: "\<exists>d' t' gs. legacyMessage lib c m (d, t) = Some (d', t') \<and> same_mode (d2, t2) (d', t') \<and>
               ydoc d' = ydoc d2 \<and> wire t' = wire t2 @ gs"
  proof (cases "\<exists>reply. sr_reply r = Some reply \<and> length (?reply reply) > 1")
    case True
    then obtain reply where rp: "sr_reply r = Some reply" "length (?reply reply) > 1" by blast
    from send_ok[of lib c "?reply reply" "(d2, t2)"] obtain d3 t3 where
      s3: "send lib c (?reply reply) (d2, t2) = Some (d3, t3)"
      and e3: "ext lib {} {(c, ?reply reply)} (d2, t2) (d3, t3)" by force
    from ext_wire_prefix[OF e3] obtain gs where "wire t3 = wire t2 @ gs" by auto
    with s3 rp unf ext_same_mode[OF e3] ext_ydoc[OF e3] show ?thesis by auto
  next
    case False
    then have "legacyMessage lib c m (d, t) = Some (d2, t2)"
      using unf by (auto split: option.splits)
    then show ?thesis by (auto simp: same_mode_refl)
  qed
  then obtain d' t' gs where f: "legacyMessage lib c m (d, t) = Some (d', t')"
    "same_mode (d2, t2) (d', t')" "ydoc d' = ydoc d2" "wire t' = wire t2 @ gs" by blast
  have w: "wire t' = wire t @ (fs @ gs)" using fs(1) f(4) by simp
  have dl: "\<forall>u \<in> set (sr_updates r). \<forall>c' \<in> fst ` set (conns d). readyState t c' = wsReadyStateOpen
                \<longrightarrow> (c', updateFrame lib u) \<in> set (fs @ gs)"
    using fs(2) by (simp add: d1_def)
  show ?thesis
    apply (rule exI[of _ d'], rule exI[of _ t'], rule exI[of _ "fs @ gs"])
    using f(1) same_mode_trans[OF m2(1) f(2)] f(3) m2(2) w dl
    by (simp add: r_def)
qed

lemma legacy_any: "\<exists>s'. legacyMessage lib c m s = Some s' \<and> same_mode s s'"
proof (cases "readVarUint lib m")
  case None
  then show ?thesis by (simp add: legacyMessage_def same_mode_refl)
next
  case (Some a)
  obtain mt rest where a: "a = (mt, rest)" by (cases a)
  show ?thesis
  proof (cases "mt = messageSync")
    case True
    show ?thesis
    proof (cases "readVarUint lib rest")
      case None
      then show ?thesis using Some a True by (simp add: legacyMessage_def same_mode_refl)
    next
      case (Some ty)
      from legacy_sync[OF _ Some, of m c "fst s" "snd s"] \<open>readVarUint lib m = Some a\<close> a True
      show ?thesis by auto
    qed
  next
    case ns: False
    show ?thesis
    proof (cases "mt = messageAwareness")
      case False
      then show ?thesis using Some a ns by (simp add: legacyMessage_def same_mode_refl)
    next
      case True
      show ?thesis
      proof (cases "readVarUint8Array lib rest")
        case None
        then show ?thesis using Some a ns True by (simp add: legacyMessage_def same_mode_refl)
      next
        case ua: (Some b)
        obtain update rest' where b: "b = (update, rest')" by (cases b)
        show ?thesis
        proof (cases "applyAwarenessUpdate lib update (awareness (fst s))")
          case None
          then show ?thesis using Some a ns True ua b by (simp add: legacyMessage_def same_mode_refl)
        next
          case ap: (Some q)
          obtain st added updated removed where q: "q = (st, added, updated, removed)"
            by (cases q) auto
          let ?s1 = "((fst s)\<lparr>awareness := st\<rparr>, snd s)"
          have m1: "same_mode s ?s1" by (simp add: same_mode_def)
          have unf: "legacyMessage lib c m s =
              (if added @ updated @ removed = [] then Some ?s1
               else awarenessChangeHandler lib added updated removed (Some c) ?s1)"
            using Some a ns True ua b ap q by (simp add: legacyMessage_def Let_def)
          show ?thesis
          proof (cases "added @ updated @ removed = []")
            case True
            with unf m1 show ?thesis by simp
          next
            case False
            from awarenessChangeHandler_ok[of lib added updated removed "Some c" ?s1]
            obtain s' where h: "awarenessChangeHandler lib added updated removed (Some c) ?s1 = Some s'"
              "same_mode ?s1 s'" by blast
            have "legacyMessage lib c m s = Some s'" using unf False h(1) by auto
            moreover have "same_mode s s'" by (rule same_mode_trans[OF m1 h(2)])
            ultimately show ?thesis by blast
          qed
        qed
      qed
    qed
  qed
qed

lemma legacy_unfold:
  assumes "map_of (docs w) r = Some doc" "\<not> isEncryptedMessage m"
  shows "messageListener lib c r m w = put_room r w (legacyMessage lib c m (doc, net w))"
  using assms by (simp add: messageListener_def)

lemma mode_kept_refl: "mode_kept w w"
  by (auto simp: mode_kept_def)

lemma mode_kept_docs: "docs w' = docs w \<Longrightarrow> mode_kept w w'"
  by (auto simp: mode_kept_def)

lemma mode_kept_trans: "mode_kept w w1 \<Longrightarrow> mode_kept w1 w2 \<Longrightarrow> mode_kept w w2"
  unfolding mode_kept_def by blast

lemma mode_kept_update:
  assumes "\<forall>d. map_of (docs w) r = Some d \<and> isEncrypted d \<longrightarrow> isEncrypted d'"
    and "\<forall>r'. r' \<noteq> r \<longrightarrow> map_of ds r' = map_of (docs w) r'"
    and "docs w' = AList.update r d' ds"
  shows "mode_kept w w'"
  unfolding mode_kept_def
proof (intro allI impI)
  fix r0 d assume h: "map_of (docs w) r0 = Some d \<and> isEncrypted d"
  show "\<exists>d'. map_of (docs w') r0 = Some d' \<and> isEncrypted d'"
  proof (cases "r0 = r")
    case True
    with assms(1) h have "isEncrypted d'" by blast
    with True show ?thesis by (simp add: assms(3) map_of_update_same)
  next
    case False
    with assms(2) h show ?thesis by (simp add: assms(3) map_of_update_other)
  qed
qed

lemma messageListener_ok: "\<exists>w'. messageListener lib c r m w = Some w' \<and> mode_kept w w'"
proof (cases "map_of (docs w) r")
  case None
  then show ?thesis by (simp add: messageListener_def mode_kept_refl)
next
  case (Some doc)
  show ?thesis
  proof (cases "isEncryptedMessage m")
    case False
    from legacy_any[of lib c m "(doc, net w)"] obtain d' t' where
      s: "legacyMessage lib c m (doc, net w) = Some (d', t')" "same_mode (doc, net w) (d', t')"
      by force
    let ?w' = "w\<lparr>docs := AList.update r d' (docs w), net := t'\<rparr>"
    have "messageListener lib c r m w = Some ?w'"
      by (simp add: legacy_unfold[OF Some False] s(1) put_room_def)
    moreover have "mode_kept w ?w'"
      by (rule mode_kept_update[of w r d' "docs w"]) (use s(2) Some in \<open>auto simp: same_mode_def\<close>)
    ultimately show ?thesis by blast
  next
    case True
    define d0 where "d0 = (if isEncryptedSyncMessage m
                           then doc\<lparr>isEncrypted := True, encryptedState := Some m\<rparr>
                           else doc\<lparr>isEncrypted := True\<rparr>)"
    define w1 where "w1 = (if isEncryptedSyncMessage m
                           then w\<lparr>persist := scheduleSave (name doc) (encryptedGetter r) (persist w)\<rparr>
                           else w)"
    have unf: "messageListener lib c r m w = put_room r w1 (forEachSend lib (Some c) m (d0, net w))"
      using Some True
      by (simp add: messageListener_def Let_def broadcastEncryptedMessage_def d0_def w1_def)
    from forEachSend_ok[of lib "Some c" m "(d0, net w)"] obtain d' t' W where
      s: "forEachSend lib (Some c) m (d0, net w) = Some (d', t')" "ext lib {} W (d0, net w) (d', t')"
      by force
    have enc: "isEncrypted d'" using ext_same_mode[OF s(2)] by (simp add: same_mode_def d0_def)
    let ?w' = "w1\<lparr>docs := AList.update r d' (docs w1), net := t'\<rparr>"
    have "messageListener lib c r m w = Some ?w'" by (simp add: unf s(1) put_room_def)
    moreover have "mode_kept w ?w'"
      by (rule mode_kept_update[of w r d' "docs w"]) (use enc in \<open>auto simp: w1_def\<close>)
    ultimately show ?thesis by blast
  qed
qed

lemma closeHandler_ok: "\<exists>w'. closeHandler lib c r w = Some w' \<and> mode_kept w w'"
proof (cases "map_of (docs w) r")
  case None
  then show ?thesis by (simp add: closeHandler_def mode_kept_refl)
next
  case (Some doc)
  from closeConn_ok[of lib c "(doc, net w)"] obtain d' t' where
    s: "closeConn lib c (doc, net w) = Some (d', t')" "ext lib {c} {} (doc, net w) (d', t')" by force
  let ?w' = "w\<lparr>docs := AList.update r d' (docs w), net := t'\<rparr>"
  have "closeHandler lib c r w = Some ?w'" using Some s(1) by (simp add: closeHandler_def put_room_def)
  moreover have "mode_kept w ?w'"
    by (rule mode_kept_update[of w r d' "docs w"])
       (use ext_same_mode[OF s(2)] Some in \<open>auto simp: same_mode_def\<close>)
  ultimately show ?thesis by blast
qed

lemma getYDoc_props:
  assumes "getYDoc lib nm g ds = (doc, ds')"
  shows "map_of ds' nm = Some doc" "\<forall>r. r \<noteq> nm \<longrightarrow> map_of ds' r = map_of ds r"
    "\<forall>d0. map_of ds nm = Some d0 \<longrightarrow> doc = d0"
  using assms
  by (auto simp: getYDoc_def Let_def map_of_update_same map_of_update_other split: option.splits)

lemma setupWSConnection_ok:
  "\<exists>w'. setupWSConnection lib c docName url g w = Some w' \<and> mode_kept w w'"
proof -
  define nm where "nm = roomName docName url"
  obtain doc ds where gy: "getYDoc lib nm g (docs w) = (doc, ds)" by (cases "getYDoc lib nm g (docs w)")
  define q where "q = (if length (conns doc) = 0 \<and> encryptedState doc = None
             then (case loadState nm (persist w) of
                     (Some persistedState, p) \<Rightarrow>
                       (doc\<lparr>encryptedState := Some persistedState, isEncrypted := True\<rparr>, p)
                   | (None, p) \<Rightarrow> (doc, p))
             else (doc, persist w))"
  obtain doc1 p1 where q1: "q = (doc1, p1)" by (cases q)
  have mono: "isEncrypted doc \<longrightarrow> isEncrypted doc1"
    using q1 unfolding q_def by (auto split: if_splits prod.splits option.splits)
  define doc2 where "doc2 = doc1\<lparr>conns := AList.update c [] (conns doc1)\<rparr>"
  define w1 where "w1 = w\<lparr>docs := ds, persist := p1\<rparr>"
  define body where "body = (case (if isEncrypted doc2 then encryptedState doc2 else None) of
           Some blob \<Rightarrow> put_room nm w1 (send lib c blob (doc2, net w1))
         | None \<Rightarrow>
             (case send lib c (writeVarUint lib messageSync @ writeSyncStep1 lib (ydoc doc2))
                     (doc2, net w1) of
                None \<Rightarrow> None
              | Some s1 \<Rightarrow>
                  if length (awareness (fst s1)) > 0
                  then put_room nm w1
                         (send lib c (awarenessFrame lib (awareness (fst s1))
                                        (map fst (awareness (fst s1)))) s1)
                  else put_room nm w1 (Some s1)))"
  have unf: "setupWSConnection lib c docName url g w = body"
    unfolding setupWSConnection_def Let_def nm_def[symmetric] gy prod.case q_def[symmetric] q1
      doc2_def[symmetric] w1_def[symmetric] body_def ..
  have fin: "\<exists>s'. body = put_room nm w1 (Some s') \<and> same_mode (doc2, net w1) s'"
  proof (cases "if isEncrypted doc2 then encryptedState doc2 else None")
    case (Some blob)
    from send_ok[of lib c blob "(doc2, net w1)"] obtain s' where
      "send lib c blob (doc2, net w1) = Some s'" "ext lib {} {(c, blob)} (doc2, net w1) s'" by blast
    then show ?thesis using Some ext_same_mode unfolding body_def by fastforce
  next
    case None
    let ?m1 = "writeVarUint lib messageSync @ writeSyncStep1 lib (ydoc doc2)"
    from send_ok[of lib c ?m1 "(doc2, net w1)"] obtain s1 where
      s1: "send lib c ?m1 (doc2, net w1) = Some s1" "ext lib {} {(c, ?m1)} (doc2, net w1) s1" by blast
    show ?thesis
    proof (cases "length (awareness (fst s1)) > 0")
      case True
      let ?m2 = "awarenessFrame lib (awareness (fst s1)) (map fst (awareness (fst s1)))"
      from send_ok[of lib c ?m2 s1] obtain s2 where
        s2: "send lib c ?m2 s1 = Some s2" "ext lib {} {(c, ?m2)} s1 s2" by blast
      have "same_mode (doc2, net w1) s2"
        using same_mode_trans[OF ext_same_mode[OF s1(2)] ext_same_mode[OF s2(2)]] .
      moreover have "body = put_room nm w1 (Some s2)"
        unfolding body_def using None s1(1) s2(1) True by simp
      ultimately show ?thesis by blast
    next
      case False
      have "body = put_room nm w1 (Some s1)"
        unfolding body_def using None s1(1) False by simp
      with ext_same_mode[OF s1(2)] show ?thesis by blast
    qed
  qed
  then obtain d' t' where s': "body = put_room nm w1 (Some (d', t'))" "same_mode (doc2, net w1) (d', t')"
    by force
  let ?w' = "w1\<lparr>docs := AList.update nm d' (docs w1), net := t'\<rparr>"
  have res: "setupWSConnection lib c docName url g w = Some ?w'"
    by (simp add: unf s'(1) put_room_def)
  note gp = getYDoc_props[OF gy]
  have enc: "\<forall>d. map_of (docs w) nm = Some d \<and> isEncrypted d \<longrightarrow> isEncrypted d'"
    using gp(3) mono s'(2) by (auto simp: same_mode_def doc2_def)
  have "mode_kept w ?w'"
    by (rule mode_kept_update[of w nm d' ds]) (use enc gp(2) in \<open>simp_all add: w1_def\<close>)
  with res show ?thesis by blast
qed

lemma step_ok: "\<exists>w'. step lib ev w = Some w' \<and> mode_kept w w'"
proof (cases "exited w")
  case True
  then show ?thesis by (simp add: step_def mode_kept_refl)
next
  case False
  show ?thesis
  proof (cases ev)
    case (Connect c docName url)
    with False setupWSConnection_ok[of lib c docName url True w] show ?thesis
      by (simp add: step_def mode_kept_refl)
  next
    case (Message c r m)
    with False messageListener_ok[of lib c r m w] show ?thesis by (simp add: step_def)
  next
    case (Close c r)
    with False closeHandler_ok[of lib c r w] show ?thesis by (simp add: step_def)
  next
    case (Elapse d)
    with False show ?thesis by (simp add: step_def mode_kept_docs)
  next
    case (Transport c rs)
    with False show ?thesis by (simp add: step_def mode_kept_docs)
  next
    case Sigterm
    with False show ?thesis by (simp add: step_def sigtermHandler_def mode_kept_docs)
  next
    case ServersClosed
    with False show ?thesis by (simp add: step_def serversClosed_def mode_kept_docs)
  qed
qed

subsection \<open>Frames of the encrypted branch, and the example frames\<close>



lemma notes_read:
  "readVarUint tinyLib notesFrame = Some (messageSync, 2 # 19 # notesUpdate)"
  "readVarUint tinyLib (2 # 19 # notesUpdate) = Some (2, 19 # notesUpdate)"
  by (simp_all add: tinyLib_def tiny_readVarUint_def messageSync_def notesFrame_def)

lemma notes_sync:
  "readSyncMessage tinyLib (2 # 19 # notesUpdate) [] =
     \<lparr>sr_doc = [notesUpdate], sr_updates = [notesUpdate], sr_reply = Some []\<rparr>"
  by (simp add: tinyLib_def tiny_readSyncMessage_def tiny_readVarUint_def
      tiny_readVarUint8Array_def notesUpdate_def)

lemma notes_frame: "updateFrame tinyLib notesUpdate = notesFrame"
  by (simp add: updateFrame_def tinyLib_def messageSync_def notesFrame_def notesUpdate_def)


subsection \<open>The claims about the persistence scheduler\<close>

text \<open>
  Claim C5.  A burst of \<open>N \<ge> 1\<close> calls of \<^verbatim>\<open>scheduleSave\<close> for room \<open>r\<close>, each followed by
  less than the debounce window before the next call and the last one by at least the
  window, produces exactly one write under the key of \<open>r\<close>; its body is what the getter of
  the last call returns on the heap as it is when the timer runs.  Nothing is written when
  that snapshot is empty.  (Persistence is configured, the timer map is well formed, and
  the other rooms with a pending timer are stored under other keys.)
\<close>

theorem scheduleSave_burst_one_write:
  fixes p :: "'h pstate"
  assumes "timers_inv p" and "keys_apart r p" and "isPersistenceAvailable p"
    and "\<forall>x \<in> set xs. snd (snd x) < SAVE_DEBOUNCE_MS"
    and "SAVE_DEBOUNCE_MS \<le> d"
  shows "writesTo r (s3log (snd (burst r (xs @ [(g, f, d)]) (h, p)))) =
           writesTo r (s3log p) @
           (if g (fst (burst r (xs @ [(g, f, d)]) (h, p))) = [] then []
            else [g (fst (burst r (xs @ [(g, f, d)]) (h, p)))]) \<and>
         pendingFor r (snd (burst r (xs @ [(g, f, d)]) (h, p))) = []"
proof -
  obtain h1 p1 where b: "burst r xs (h, p) = (h1, p1)" by (cases "burst r xs (h, p)")
  from burst_quiet[OF assms(1,2,4), of h] b
  have q: "writesTo r (s3log p1) = writesTo r (s3log p)" "timers_inv p1" "keys_apart r p1"
    "penv p1 = penv p" by simp_all
  let ?q = "advance d (f h1) (scheduleSave r g p1)"
  have fin: "burst r (xs @ [(g, f, d)]) (h, p) = (f h1, ?q)" by (simp add: burst_append b)
  have av: "isPersistenceAvailable p1" using assms(3) q(4) by (simp add: isPersistenceAvailable_def)
  have w: "writesTo r (s3log ?q) = writesTo r (s3log p) @ (if g (f h1) = [] then [] else [g (f h1)])"
    using schedule_advance(1)[OF q(2,3), of d "f h1" g] assms(5) av q(1) by simp
  have inv: "timers_inv (scheduleSave r g p1)" by (rule inv_schedule[OF q(2)])
  have "timeouts ?q = filter (\<lambda>x. \<not> due (snd x) \<le> clock p1 + d)
          (filter (\<lambda>x. roomOf (snd x) \<noteq> r) (timeouts p1) @
           [(nextTimeout p1, \<lparr>due = clock p1 + SAVE_DEBOUNCE_MS, roomOf = r, getter = g\<rparr>)])"
    by (simp add: advance_effect(2)[OF inv] scheduleSave_timeouts inv_cancel_timeouts[OF q(2)])
  then have "pendingFor r ?q = []"
    using assms(5) by (auto simp: pendingFor_def filter_empty_conv)
  with w show ?thesis by (simp add: fin)
qed

theorem scheduleSave_burst_one_write_witness:
  "writesTo ''book1:ch2''
     (s3log (snd (burst ''book1:ch2''
        ([(\<lambda>h. h, \<lambda>h. [1], 100), (\<lambda>h. h, \<lambda>h. [1, 2], 1999)] @ [(\<lambda>h. h, \<lambda>h. [1, 2, 3], 2000)])
        ([], pstate0 env1)))) = [[1, 2, 3]]"
proof -
  have a: "timers_inv (pstate0 env1 :: bytes pstate)" by (rule inv_pstate0)
  have b: "keys_apart ''book1:ch2'' (pstate0 env1 :: bytes pstate)"
    by (simp add: keys_apart_def pstate0_def)
  have c: "isPersistenceAvailable (pstate0 env1 :: bytes pstate)"
    by (simp add: isPersistenceAvailable_def pstate0_def env1_def getS3Client_def falsy_def)
  have d: "\<forall>x \<in> set [(\<lambda>h::bytes. h, \<lambda>h::bytes. [1::8 word], 100::nat), (\<lambda>h. h, \<lambda>h. [1, 2], 1999)].
             snd (snd x) < SAVE_DEBOUNCE_MS"
    by (simp add: SAVE_DEBOUNCE_MS_def)
  have e: "SAVE_DEBOUNCE_MS \<le> 2000" by (simp add: SAVE_DEBOUNCE_MS_def)
  from scheduleSave_burst_one_write[OF a b c d e, of "\<lambda>h. h" "\<lambda>h. [1, 2, 3]" "[]"]
  show ?thesis by (simp add: burst_heap pstate0_def)
qed

text \<open>
  Claim C6.  \<^verbatim>\<open>forceSave\<close> for a room with a pending scheduled save: the pending timer is
  cancelled, at most one write is sent (none exactly when the snapshot is empty), its body
  is the snapshot the getter returns at the time of the flush, and however much time
  passes afterwards the cancelled timer never adds a second write.
\<close>

theorem forceSave_at_most_one_write:
  fixes p :: "'h pstate"
  assumes "timers_inv p" and "keys_apart r p" and "isPersistenceAvailable p"
    and "saveTimers p r = Some t"
  shows "pendingFor r p \<noteq> [] \<and>
         writesTo r (s3log (forceSave r g h p)) =
           writesTo r (s3log p) @ (if g h = [] then [] else [g h]) \<and>
         pendingFor r (forceSave r g h p) = [] \<and>
         saveTimers (forceSave r g h p) r = None \<and>
         (\<forall>d h'. writesTo r (s3log (advance d h' (forceSave r g h p))) =
                  writesTo r (s3log (forceSave r g h p)))"
proof -
  let ?q = "forceSave r g h p"
  from inv_handle_room[OF assms(1,4)] obtain tm where "(t, tm) \<in> set (timeouts p)" "roomOf tm = r"
    by blast
  then have "(t, tm) \<in> set (pendingFor r p)" by (simp add: pendingFor_def)
  then have pend: "pendingFor r p \<noteq> []" by auto
  have w: "writesTo r (s3log ?q) = writesTo r (s3log p) @ (if g h = [] then [] else [g h])"
    using assms(3) by (simp add: writesTo_puts isPersistenceAvailable_def)
  have ts: "timeouts ?q = filter (\<lambda>x. roomOf (snd x) \<noteq> r) (timeouts p)"
    by (simp add: forceSave_timeouts inv_cancel_timeouts[OF assms(1)])
  have none: "pendingFor r ?q = []" unfolding pendingFor_def ts by (simp add: filter_empty_conv)
  have inv: "timers_inv ?q" by (rule inv_forceSave[OF assms(1)])
  have ka: "keys_apart r ?q" by (rule keys_apart_subset[OF assms(2)]) (auto simp: ts)
  have later: "\<forall>d h'. writesTo r (s3log (advance d h' ?q)) = writesTo r (s3log ?q)"
    using advance_quiet[OF inv ka none] by simp
  from pend w none later show ?thesis by simp
qed

theorem forceSave_at_most_one_write_witness:
  "writesTo ''book1:ch2''
     (s3log (advance 5000 [9]
        (forceSave ''book1:ch2'' (\<lambda>h. h) [7, 8]
           (scheduleSave ''book1:ch2'' (\<lambda>h. [1]) (pstate0 env1))))) = [[7, 8]]"
proof -
  let ?p = "scheduleSave ''book1:ch2'' (\<lambda>h. [1]) (pstate0 env1 :: bytes pstate)"
  have a: "timers_inv ?p" by (rule inv_schedule[OF inv_pstate0])
  have b: "keys_apart ''book1:ch2'' ?p"
    by (simp add: keys_apart_def scheduleSave_timeouts cancelPendingSave_def pstate0_def)
  have c: "isPersistenceAvailable ?p"
    by (simp add: isPersistenceAvailable_def pstate0_def env1_def getS3Client_def falsy_def)
  have d: "saveTimers ?p ''book1:ch2'' = Some 0" by (simp add: pstate0_def)
  from forceSave_at_most_one_write[OF a b c d, of "\<lambda>h. h" "[7, 8]"]
  show ?thesis by (simp add: pstate0_def)
qed

text \<open>
  Claim C9.  When one of the three credentials is missing from the environment (unset or
  empty), \<^verbatim>\<open>persistState\<close>, \<^verbatim>\<open>loadState\<close> and \<^verbatim>\<open>deleteState\<close> return with the state of the
  module and of the store unchanged, \<^verbatim>\<open>loadState\<close> returns no state, and \<^verbatim>\<open>forceSave\<close> sends
  no command and leaves the store as it is.
\<close>

theorem unconfigured_no_storage_io:
  assumes "falsy (CLOUDFLARE_ACCOUNT_ID (penv p)) \<or> falsy (R2_ACCESS_KEY_ID (penv p))
           \<or> falsy (R2_SECRET_ACCESS_KEY (penv p))"
  shows "persistState r s p = p \<and> loadState r p = (None, p) \<and> deleteState r p = p \<and>
         s3log (forceSave r g h p) = s3log p \<and> objects (forceSave r g h p) = objects p \<and>
         \<not> isPersistenceAvailable p"
proof -
  have n: "getS3Client (penv p) = None"
    using assms by (auto simp: getS3Client_def falsy_def split: option.splits)
  have f: "forceSave r g h p = cancelPendingSave r p"
    by (simp add: forceSave_def Let_def persistState_def n)
  show ?thesis
    by (simp add: persistState_def loadState_def deleteState_def n f isPersistenceAvailable_def)
qed

theorem unconfigured_no_storage_io_witness:
  "persistState ''book1:ch2'' [1, 2] (pstate0 env0 :: bytes pstate) = pstate0 env0 \<and>
   loadState ''book1:ch2'' (pstate0 env0 :: bytes pstate) = (None, pstate0 env0) \<and>
   deleteState ''book1:ch2'' (pstate0 env0 :: bytes pstate) = pstate0 env0 \<and>
   s3log (forceSave ''book1:ch2'' (\<lambda>h. h) [1, 2] (pstate0 env0)) = []"
proof -
  have a: "falsy (CLOUDFLARE_ACCOUNT_ID (penv (pstate0 env0 :: bytes pstate)))
           \<or> falsy (R2_ACCESS_KEY_ID (penv (pstate0 env0 :: bytes pstate)))
           \<or> falsy (R2_SECRET_ACCESS_KEY (penv (pstate0 env0 :: bytes pstate)))"
    by (simp add: pstate0_def env0_def falsy_def)
  have b: "s3log (pstate0 env0 :: bytes pstate) = []" by (simp add: pstate0_def)
  note w = unconfigured_no_storage_io[OF a, of "''book1:ch2''" "[1, 2]" "\<lambda>h. h" "[1, 2]"]
  from w have "s3log (forceSave ''book1:ch2'' (\<lambda>h. h) [1, 2] (pstate0 env0 :: bytes pstate))
                 = s3log (pstate0 env0 :: bytes pstate)" by blast
  with b have c: "s3log (forceSave ''book1:ch2'' (\<lambda>h. h) [1, 2] (pstate0 env0 :: bytes pstate)) = []"
    by (simp only:)
  from w c show ?thesis by blast
qed

text \<open>
  Claim C10.  The timer map is well formed at the start and stays so under every
  operation of the scheduler (\<^verbatim>\<open>scheduleSave\<close>, a timer that runs, \<^verbatim>\<open>cancelPendingSave\<close>,
  \<^verbatim>\<open>forceSave\<close>, \<^verbatim>\<open>saveAllPending\<close> and the storage calls); in a well-formed state, and so
  in every state a run reaches, a room has at most one pending timer.
\<close>

theorem save_timers_at_most_one:
  fixes p :: "'h pstate" and h h0 :: 'h
  shows "timers_inv (pstate0 e :: 'h pstate) \<and>
         (timers_inv p \<longrightarrow>
            timers_inv (scheduleSave r g p) \<and> timers_inv (fireTimeout t h p) \<and>
            timers_inv (advance d h p) \<and> timers_inv (cancelPendingSave r p) \<and>
            timers_inv (forceSave r g h p) \<and> timers_inv (saveAllPending ds h p) \<and>
            timers_inv (snd (pstep ev (h, p))) \<and> length (pendingFor r p) \<le> 1) \<and>
         length (pendingFor r (snd (prun evs (h0, pstate0 e)))) \<le> 1"
proof -
  have "timers_inv (snd (prun evs (h0, pstate0 e :: 'h pstate)))"
    by (rule inv_prun) (simp add: inv_pstate0)
  then have "length (pendingFor r (snd (prun evs (h0, pstate0 e)))) \<le> 1"
    by (rule inv_at_most_one)
  moreover have "timers_inv p \<longrightarrow> length (pendingFor r p) \<le> 1"
    by (rule impI) (rule inv_at_most_one)
  ultimately show ?thesis
    by (simp add: inv_pstate0 inv_schedule inv_fireTimeout inv_advance inv_cancel inv_forceSave
        inv_saveAllPending inv_pstep)
qed

theorem save_timers_at_most_one_witness:
  "length (pendingFor ''book1:ch2''
     (snd (prun [EvScheduleSave ''book1:ch2'' (\<lambda>h. h), EvScheduleSave ''book1:ch3'' (\<lambda>h. h),
                 EvAdvance 100, EvScheduleSave ''book1:ch2'' (\<lambda>h. [1])]
            ([7], pstate0 env1)))) = 1"
proof -
  have "pendingFor ''book1:ch2''
     (snd (prun [EvScheduleSave ''book1:ch2'' (\<lambda>h. h), EvScheduleSave ''book1:ch3'' (\<lambda>h. h),
                 EvAdvance 100, EvScheduleSave ''book1:ch2'' (\<lambda>h. [1])]
            ([7], pstate0 env1 :: bytes pstate))) \<noteq> []"
    by (simp add: prun_def pendingFor_def scheduleSave_timeouts)
  with save_timers_at_most_one[of env1 "pstate0 env1 :: bytes pstate" "''book1:ch2''" "\<lambda>h. h" 0 "[7]" 0 "[]"
      "EvAdvance 0"
      "[EvScheduleSave ''book1:ch2'' (\<lambda>h. h), EvScheduleSave ''book1:ch3'' (\<lambda>h. h),
        EvAdvance 100, EvScheduleSave ''book1:ch2'' (\<lambda>h. [1])]" "[7]"]
  show ?thesis by (simp add: le_Suc_eq)
qed

subsection \<open>The claims about the relay\<close>

text \<open>
  Claim C4.  An inbound frame whose first byte is 0x01 or 0x03, received from connection
  \<open>a\<close> in room \<open>r\<close>: the frame becomes the room's encrypted state as it is (and the room is in
  encrypted mode), a save of the room is scheduled with the debounce delay and a getter
  that returns this state, and the frame is passed unchanged to the transport for every
  other connection of the room that is open; a connection that is not open gets nothing and
  is pruned from the room.  Every frame the transport accepts in the step is this frame for
  a connection other than \<open>a\<close>, or a presence notice about a pruned connection; when all the
  other connections are open, the accepted frames are exactly one copy of the frame for
  each other connection, in the order of the room's connection map.
\<close>

theorem encrypted_sync_relay:
  assumes doc: "map_of (docs w) r = Some doc"
    and frame: "m = b # rest" "b = 0x01 \<or> b = 0x03"
  shows "\<exists>w' doc' fs.
     messageListener lib a r m w = Some w' \<and> map_of (docs w') r = Some doc' \<and>
     encryptedState doc' = Some m \<and> isEncrypted doc' \<and> encryptedGetter r (docs w') = m \<and>
     persist w' = scheduleSave (name doc) (encryptedGetter r) (persist w) \<and>
     saveTimers (persist w') (name doc) = Some (nextTimeout (persist w)) \<and>
     (nextTimeout (persist w),
      \<lparr>due = clock (persist w) + SAVE_DEBOUNCE_MS, roomOf = name doc, getter = encryptedGetter r\<rparr>)
        \<in> set (timeouts (persist w')) \<and>
     wire (net w') = wire (net w) @ fs \<and>
     (\<forall>c \<in> fst ` set (conns doc). c \<noteq> a \<longrightarrow>
         (if readyState (net w) c = wsReadyStateOpen then (c, m) \<in> set fs
          else c \<notin> fst ` set (conns doc'))) \<and>
     (\<forall>x \<in> set fs. (fst x \<in> fst ` set (conns doc) \<and> fst x \<noteq> a \<and> snd x = m) \<or>
                    isAwarenessFrame lib (snd x)) \<and>
     ((\<forall>c \<in> fst ` set (conns doc). c \<noteq> a \<longrightarrow> readyState (net w) c = wsReadyStateOpen) \<longrightarrow>
        fs = map (\<lambda>c. (c, m)) (filter (\<lambda>c. c \<noteq> a) (map fst (conns doc))) \<and>
        conns doc' = conns doc)"
proof -
  have sync: "isEncryptedSyncMessage m"
    using frame by (auto simp: isEncryptedSyncMessage_def ENCRYPTED_SYNC_VERSION_def
        ENCRYPTED_SYNC_COMPRESSED_VERSION_def)
  let ?doc2 = "doc\<lparr>isEncrypted := True, encryptedState := Some m\<rparr>"
  let ?w1 = "w\<lparr>persist := scheduleSave (name doc) (encryptedGetter r) (persist w)\<rparr>"
  from forEachSend_ok[of lib "Some a" m "(?doc2, net w)"] obtain doc' t' where
    s': "forEachSend lib (Some a) m (?doc2, net w) = Some (doc', t')"
    and e: "ext lib {} {x. fst x \<in> set (map fst (conns (fst (?doc2, net w)))) \<and>
              Some (fst x) \<noteq> Some a \<and> snd x = m} (?doc2, net w) (doc', t')" by force
  let ?w' = "?w1\<lparr>docs := AList.update r doc' (docs ?w1), net := t'\<rparr>"
  have res: "messageListener lib a r m w = Some ?w'"
    by (simp add: encrypted_sync_unfold[OF doc sync] s' put_room_def)
  have lookup: "map_of (docs ?w') r = Some doc'" by (simp add: map_of_update_same)
  have sc: "encryptedState doc' = Some m" "isEncrypted doc'"
    using e unfolding ext_def same_scalars_def by simp_all
  have g: "encryptedGetter r (docs ?w') = m"
    by (simp add: encryptedGetter_def map_of_update_same sc)
  from forEachSend_deliver[OF s'] obtain fs where fs: "wire t' = wire (net w) @ fs"
    "\<forall>c \<in> fst ` set (conns ?doc2). Some c \<noteq> Some a \<longrightarrow>
               (if readyState (net w) c = wsReadyStateOpen then (c, m) \<in> set fs
                else c \<notin> fst ` set (conns doc'))"
    "\<forall>x \<in> set fs. readyState (net w) (fst x) = wsReadyStateOpen \<and>
               ((fst x \<in> fst ` set (conns ?doc2) \<and> Some (fst x) \<noteq> Some a \<and> snd x = m) \<or>
                isAwarenessFrame lib (snd x))" by blast
  have d1: "\<forall>c \<in> fst ` set (conns doc). c \<noteq> a \<longrightarrow>
         (if readyState (net w) c = wsReadyStateOpen then (c, m) \<in> set fs
          else c \<notin> fst ` set (conns doc'))"
    using fs(2) by simp
  have d2: "\<forall>x \<in> set fs. (fst x \<in> fst ` set (conns doc) \<and> fst x \<noteq> a \<and> snd x = m) \<or>
                    isAwarenessFrame lib (snd x)"
    using fs(3) by simp
  have d3: "(\<forall>c \<in> fst ` set (conns doc). c \<noteq> a \<longrightarrow> readyState (net w) c = wsReadyStateOpen) \<longrightarrow>
        fs = map (\<lambda>c. (c, m)) (filter (\<lambda>c. c \<noteq> a) (map fst (conns doc))) \<and> conns doc' = conns doc"
  proof
    assume "\<forall>c \<in> fst ` set (conns doc). c \<noteq> a \<longrightarrow> readyState (net w) c = wsReadyStateOpen"
    then have "\<forall>c \<in> fst ` set (conns ?doc2). Some c \<noteq> Some a \<longrightarrow> readyState (net w) c = wsReadyStateOpen"
      by simp
    from forEachSend_all_open[OF this, of lib m] s' fs(1)
    show "fs = map (\<lambda>c. (c, m)) (filter (\<lambda>c. c \<noteq> a) (map fst (conns doc))) \<and> conns doc' = conns doc"
      by auto
  qed
  have sched: "saveTimers (persist ?w') (name doc) = Some (nextTimeout (persist w))"
    "(nextTimeout (persist w),
      \<lparr>due = clock (persist w) + SAVE_DEBOUNCE_MS, roomOf = name doc, getter = encryptedGetter r\<rparr>)
        \<in> set (timeouts (persist ?w'))"
    by (simp_all add: scheduleSave_timeouts)
  have wr: "wire (net ?w') = wire (net w) @ fs" using fs(1) by simp
  have p: "persist ?w' = scheduleSave (name doc) (encryptedGetter r) (persist w)" by simp
  show ?thesis
    apply (rule exI[of _ ?w'], rule exI[of _ doc'], rule exI[of _ fs])
    apply (intro conjI)
    apply (rule res) apply (rule lookup) apply (rule sc) apply (rule sc) apply (rule g)
    apply (rule p) apply (rule sched) apply (rule sched) apply (rule wr) apply (rule d1)
    apply (rule d2) apply (rule d3)
    done
qed

theorem encrypted_sync_relay_witness:
  "\<exists>w'. messageListener tinyLib 1 room1 [0x01, 42, 43] world1 = Some w' \<and>
        map_option encryptedState (map_of (docs w') room1) = Some (Some [0x01, 42, 43]) \<and>
        wire (net w') = [(2, [0x01, 42, 43]), (3, [0x01, 42, 43])] \<and>
        saveTimers (persist w') room1 = Some 0"
proof -
  have a: "map_of (docs world1) room1 = Some doc1" by (simp add: world1_def)
  have b: "(0x01 :: 8 word) = 0x01 \<or> (0x01 :: 8 word) = 0x03" by simp
  from encrypted_sync_relay[where lib = tinyLib and a = 1 and rest = "[42, 43]", OF a refl b]
  obtain w' doc' fs where w:
    "messageListener tinyLib 1 room1 [0x01, 42, 43] world1 = Some w'"
    "map_of (docs w') room1 = Some doc'" "encryptedState doc' = Some [0x01, 42, 43]"
    "saveTimers (persist w') (name doc1) = Some (nextTimeout (persist world1))"
    "wire (net w') = wire (net world1) @ fs"
    "(\<forall>c \<in> fst ` set (conns doc1). c \<noteq> 1 \<longrightarrow> readyState (net world1) c = wsReadyStateOpen) \<longrightarrow>
        fs = map (\<lambda>c. (c, [0x01, 42, 43])) (filter (\<lambda>c. c \<noteq> 1) (map fst (conns doc1))) \<and>
        conns doc' = conns doc1"
    by blast
  have "fs = [(2, [0x01, 42, 43]), (3, [0x01, 42, 43])]"
    using w(6) by (simp add: world1_def net1_def doc1_def)
  with w show ?thesis by (simp add: world1_def net1_def doc1_def pstate0_def)
qed

text \<open>
  Claim C8, as amended.  Closing a connection, by its close handler or because a send finds
  its transport not open, removes it from the room's connection map and revokes the
  presence entry of every client id it controlled; the room stays in the server's map,
  and its name, document state, encrypted state and mode are unchanged, as are the other
  rooms and the scheduler.  Every other connection whose transport is open keeps its place
  and the ids it controls.  (A connection whose transport is not open can leave in the same
  step: the counterexample below.)
\<close>

theorem closeConn_removes_and_revokes:
  assumes "map_of (conns d) c = Some ids"
  shows "(\<exists>s'. closeConn lib c (d, t) = Some s' \<and> closed_out c ids (d, t) s') \<and>
         (readyState t c \<noteq> wsReadyStateOpen \<longrightarrow>
            (\<exists>s'. send lib c m (d, t) = Some s' \<and> closed_out c ids (d, t) s')) \<and>
         (map_of (docs w) r = Some d \<and> net w = t \<longrightarrow>
            (\<exists>w' d'. closeHandler lib c r w = Some w' \<and> map_of (docs w') r = Some d' \<and>
                closed_out c ids (d, t) (d', net w') \<and> persist w' = persist w \<and>
                (\<forall>r'. r' \<noteq> r \<longrightarrow> map_of (docs w') r' = map_of (docs w) r')))"
proof -
  from closeConn_ok[of lib c "(d, t)"] obtain d' t' where
    s': "closeConn lib c (d, t) = Some (d', t')" and e: "ext lib {c} {} (d, t) (d', t')" by force
  have r: "closeConn_f lib (length (conns d)) c (d, t) = Some (d', t')"
    using s' by (simp add: closeConn_def)
  note g = closeConn_f_gone[OF le_refl r]
  have co: "closed_out c ids (d, t) (d', t')"
    by (rule closed_out_from_ext[OF e]) (use g assms in simp_all)
  have 1: "\<exists>s'. closeConn lib c (d, t) = Some s' \<and> closed_out c ids (d, t) s'"
    using s' co by blast
  have 2: "readyState t c \<noteq> wsReadyStateOpen \<longrightarrow>
            (\<exists>s'. send lib c m (d, t) = Some s' \<and> closed_out c ids (d, t) s')"
  proof
    assume dead: "readyState t c \<noteq> wsReadyStateOpen"
    from send_ok[of lib c m "(d, t)"] obtain d2 t2 where
      s2: "send lib c m (d, t) = Some (d2, t2)" and e2: "ext lib {} {(c, m)} (d, t) (d2, t2)" by force
    have r2: "send_f lib (length (conns d)) c m (d, t) = Some (d2, t2)"
      using s2 by (simp add: send_def)
    note g2 = send_f_dead_gone[OF le_refl dead r2]
    have "ext lib {c} {(c, m)} (d, t) (d2, t2)" by (rule ext_weaken[OF e2]) auto
    then have "closed_out c ids (d, t) (d2, t2)"
      by (rule closed_out_from_ext) (use g2 assms in simp_all)
    with s2 show "\<exists>s'. send lib c m (d, t) = Some s' \<and> closed_out c ids (d, t) s'" by blast
  qed
  have 3: "map_of (docs w) r = Some d \<and> net w = t \<longrightarrow>
            (\<exists>w' d'. closeHandler lib c r w = Some w' \<and> map_of (docs w') r = Some d' \<and>
                closed_out c ids (d, t) (d', net w') \<and> persist w' = persist w \<and>
                (\<forall>r'. r' \<noteq> r \<longrightarrow> map_of (docs w') r' = map_of (docs w) r'))"
  proof
    assume h: "map_of (docs w) r = Some d \<and> net w = t"
    let ?w' = "w\<lparr>docs := AList.update r d' (docs w), net := t'\<rparr>"
    have "closeHandler lib c r w = Some ?w'"
      using h s' by (simp add: closeHandler_def put_room_def)
    moreover have "map_of (docs ?w') r = Some d'" by (simp add: map_of_update_same)
    moreover have "\<forall>r'. r' \<noteq> r \<longrightarrow> map_of (docs ?w') r' = map_of (docs w) r'"
      by (simp add: map_of_update_other)
    ultimately show "\<exists>w' d'. closeHandler lib c r w = Some w' \<and> map_of (docs w') r = Some d' \<and>
                closed_out c ids (d, t) (d', net w') \<and> persist w' = persist w \<and>
                (\<forall>r'. r' \<noteq> r \<longrightarrow> map_of (docs w') r' = map_of (docs w) r')"
      using co by (intro exI[of _ ?w'] exI[of _ d']) simp
  qed
  from 1 2 3 show ?thesis by blast
qed

theorem closeConn_removes_and_revokes_witness:
  "\<exists>s'. closeConn tinyLib 1 (doc2, net2) = Some s' \<and> map_of (conns (fst s')) 1 = None \<and>
        awareness (fst s') = [] \<and> ydoc (fst s') = [] \<and> encryptedState (fst s') = None"
proof -
  have a: "map_of (conns doc2) 1 = Some [7]" by (simp add: doc2_def)
  from closeConn_removes_and_revokes[where lib = tinyLib and t = net2, OF a]
  obtain s' where s: "closeConn tinyLib 1 (doc2, net2) = Some s'"
    "closed_out 1 [7] (doc2, net2) s'" by blast
  from s(2) have "map_of (conns (fst s')) 1 = None" "7 \<notin> fst ` set (awareness (fst s'))"
    "set (awareness (fst s')) \<subseteq> {(7, [9])}" "ydoc (fst s') = []" "encryptedState (fst s') = None"
    by (simp_all add: closed_out_def in_keys_map_of doc2_def)
  moreover then have "awareness (fst s') = []" by (cases "awareness (fst s')") auto
  ultimately show ?thesis using s(1) by simp
qed

text \<open>
  Claim C8 as stated fails for the other connections: in a room where connection 1 controls
  a client id with a presence entry and the transport of connection 2 is closed, closing
  connection 1 broadcasts the revocation, the send to connection 2 finds it dead, and
  connection 2 leaves the map too.
\<close>

theorem closeConn_other_connection_counterexample:
  "map_of (conns doc2) 2 = Some [] \<and>
   map_option (\<lambda>s. map_of (conns (fst s)) 2) (closeConn tinyLib 1 (doc2, net2)) = Some None"
  by (simp add: closeConn_def doc2_def net2_def closeConn_f.simps send_f.simps forEach_f.simps
      removeStates_def ws_close_def ws_send_def wsReadyStateOpen_def wsReadyStateConnecting_def)




text \<open>
  Claim C2, as amended.  A legacy sync frame is applied to the room's document, and the
  frame of every update the document emits while the frame is applied is passed to the
  transport for every connection of the room that is open, the sender included.  Nothing
  of the persistence module is called: no save is scheduled.
\<close>

theorem legacy_sync_update_broadcast:
  assumes "map_of (docs w) r = Some doc" and "\<not> isEncryptedMessage m"
    and "readVarUint lib m = Some (messageSync, rest)" and "readVarUint lib rest = Some ty"
  shows "\<exists>w' doc' fs. messageListener lib a r m w = Some w' \<and> map_of (docs w') r = Some doc' \<and>
           ydoc doc' = sr_doc (readSyncMessage lib rest (ydoc doc)) \<and>
           wire (net w') = wire (net w) @ fs \<and>
           (\<forall>u \<in> set (sr_updates (readSyncMessage lib rest (ydoc doc))).
              \<forall>c \<in> fst ` set (conns doc). readyState (net w) c = wsReadyStateOpen
                \<longrightarrow> (c, updateFrame lib u) \<in> set fs) \<and>
           persist w' = persist w"
proof -
  from legacy_sync[OF assms(3,4), of a doc "net w"] obtain doc' t' fs where
    s: "legacyMessage lib a m (doc, net w) = Some (doc', t')"
       "ydoc doc' = sr_doc (readSyncMessage lib rest (ydoc doc))" "wire t' = wire (net w) @ fs"
       "\<forall>u \<in> set (sr_updates (readSyncMessage lib rest (ydoc doc))).
              \<forall>c \<in> fst ` set (conns doc). readyState (net w) c = wsReadyStateOpen
                \<longrightarrow> (c, updateFrame lib u) \<in> set fs" by blast
  let ?w' = "w\<lparr>docs := AList.update r doc' (docs w), net := t'\<rparr>"
  have res: "messageListener lib a r m w = Some ?w'"
    by (simp add: legacy_unfold[OF assms(1,2)] s(1) put_room_def)
  show ?thesis
    apply (rule exI[of _ ?w'], rule exI[of _ doc'], rule exI[of _ fs])
    using res s(2,3,4) by (simp add: map_of_update_same)
qed

theorem legacy_sync_update_broadcast_witness:
  "\<exists>w'. messageListener tinyLib 1 room1 notesFrame world1 = Some w' \<and>
        (1, notesFrame) \<in> set (wire (net w')) \<and> (2, notesFrame) \<in> set (wire (net w')) \<and>
        (3, notesFrame) \<in> set (wire (net w')) \<and> persist w' = persist world1"
proof -
  have a: "map_of (docs world1) room1 = Some doc1" by (simp add: world1_def)
  have c: "\<not> isEncryptedMessage notesFrame"
    by (simp add: isEncryptedMessage_def ENCRYPTED_SYNC_VERSION_def ENCRYPTED_AWARENESS_VERSION_def
        ENCRYPTED_SYNC_COMPRESSED_VERSION_def notesFrame_def)
  from legacy_sync_update_broadcast[where lib = tinyLib and a = 1, OF a c notes_read]
  obtain w' fs where w: "messageListener tinyLib 1 room1 notesFrame world1 = Some w'"
    "wire (net w') = wire (net world1) @ fs"
    "\<forall>u \<in> set (sr_updates (readSyncMessage tinyLib (2 # 19 # notesUpdate) (ydoc doc1))).
              \<forall>c \<in> fst ` set (conns doc1). readyState (net world1) c = wsReadyStateOpen
                \<longrightarrow> (c, updateFrame tinyLib u) \<in> set fs"
    "persist w' = persist world1" by blast
  from w(3) have "(1, notesFrame) \<in> set fs" "(2, notesFrame) \<in> set fs" "(3, notesFrame) \<in> set fs"
    by (simp_all add: notes_sync notes_frame doc1_def world1_def net1_def)
  with w(1,2,4) show ?thesis by simp
qed

text \<open>
  Claim C2 as stated fails in "a debounced save is scheduled": a legacy sync frame whose
  update changes the document is broadcast to the three connections of the room and leaves
  no timer behind.
\<close>

theorem legacy_sync_no_save_counterexample:
  "map_option (\<lambda>w'. (map_option ydoc (map_of (docs w') room1),
                     timeouts (persist w'), saveTimers (persist w') room1, wire (net w')))
     (messageListener tinyLib 1 room1 notesFrame world1) =
       Some (Some [notesUpdate], [], None, [(1, notesFrame), (2, notesFrame), (3, notesFrame)]) \<and>
   ydoc doc1 = [] \<and>
   sr_updates (readSyncMessage tinyLib (2 # 19 # notesUpdate) (ydoc doc1)) = [notesUpdate]"
  by (simp add: messageListener_def legacyMessage_def world1_def doc1_def net1_def
      isEncryptedMessage_def ENCRYPTED_SYNC_VERSION_def ENCRYPTED_AWARENESS_VERSION_def
      ENCRYPTED_SYNC_COMPRESSED_VERSION_def tinyLib_def tiny_readSyncMessage_def
      tiny_readVarUint_def tiny_readVarUint8Array_def messageSync_def messageAwareness_def
      updateHandler_def forEachSend_def forEach_f.simps send_f.simps ws_send_def
      wsReadyStateOpen_def wsReadyStateConnecting_def put_room_def Let_def updateFrame_def
      send_def room1_def pstate0_def notesFrame_def notesUpdate_def)

text \<open>
  Claim C7.  Whatever events the server handles, in whatever order, it handles them all,
  and a room that is in encrypted mode before them is still in the server's map and in
  encrypted mode after them.
\<close>

theorem mode_monotonic: "\<exists>w'. run lib evs w = Some w' \<and> mode_kept w w'"
proof (induction evs arbitrary: w)
  case Nil
  then show ?case by (simp add: mode_kept_refl)
next
  case (Cons ev evs)
  from step_ok[of lib ev w] obtain w1 where w1: "step lib ev w = Some w1" "mode_kept w w1" by blast
  from Cons.IH[of w1] obtain w2 where w2: "run lib evs w1 = Some w2" "mode_kept w1 w2" by blast
  from w1 w2 mode_kept_trans show ?case by fastforce
qed

theorem mode_monotonic_witness:
  "\<exists>w'. run tinyLib [Message 2 room1 [0, 2, 1, 9], Close 1 room1, Connect 4 (Some room1) None,
                      Elapse 3000, Message 4 room1 [0, 0]] world3 = Some w' \<and>
        map_option isEncrypted (map_of (docs w') room1) = Some True"
proof -
  from mode_monotonic[of tinyLib "[Message 2 room1 [0, 2, 1, 9], Close 1 room1,
      Connect 4 (Some room1) None, Elapse 3000, Message 4 room1 [0, 0]]" world3]
  obtain w' where w: "run tinyLib [Message 2 room1 [0, 2, 1, 9], Close 1 room1,
      Connect 4 (Some room1) None, Elapse 3000, Message 4 room1 [0, 0]] world3 = Some w'"
    "mode_kept world3 w'" by blast
  have "map_of (docs world3) room1 = Some doc3 \<and> isEncrypted doc3"
    by (simp add: world3_def doc3_def)
  with w(2) obtain d' where "map_of (docs w') room1 = Some d'" "isEncrypted d'"
    unfolding mode_kept_def by blast
  with w(1) show ?thesis by simp
qed

subsection \<open>The claim about shutdown\<close>

text \<open>
  Claim C1 does not hold of the code.  The handler of the termination signal and the
  callback that exits leave the state of the persistence module as it is.  In the example a
  room holds an encrypted state whose save is still pending; the process is told to
  terminate and exits once its servers have closed, with or without the connections of the
  room closing first: nothing has been written, and nothing is written afterwards.
  \<^verbatim>\<open>saveAllPending\<close> on the getters of \<^verbatim>\<open>getDocsForPersistence\<close>, which the handler does not
  call, would have written the state.
\<close>

theorem sigterm_writes_nothing:
  "persist (sigtermHandler w) = persist w \<and> persist (serversClosed w) = persist w \<and>
   encryptedGetter room1 (docs world4) = [0x01, 5] \<and>
   length (pendingFor room1 (persist world4)) = 1 \<and>
   run lib [Sigterm, ServersClosed] world4 = Some (world4\<lparr>closing := True, exited := True\<rparr>) \<and>
   s3log (persist (world4\<lparr>closing := True, exited := True\<rparr>)) = [] \<and>
   run lib [Sigterm, ServersClosed, Elapse 5000] world4 =
     Some (world4\<lparr>closing := True, exited := True\<rparr>) \<and>
   map_option (\<lambda>w'. (exited w', map_option conns (map_of (docs w') room1), s3log (persist w'),
                     persist w' = persist world4))
     (run lib [Sigterm, Close 1 room1, Close 2 room1, Close 3 room1, ServersClosed, Elapse 5000]
        world4) = Some (True, Some [], [], True) \<and>
   writesTo room1 (s3log (saveAllPending (getDocsForPersistence (docs world4)) (docs world4)
       (persist world4))) = [[0x01, 5]]"
  by (simp add: step_def sigtermHandler_def serversClosed_def world4_def world3_def doc3_def
      doc1_def encryptedGetter_def pendingFor_def scheduleSave_timeouts cancelPendingSave_def
      pstate0_def getDocsForPersistence_def writesTo_def puts_def env1_def getS3Client_def
      falsy_def room1_def closeHandler_def closeConn_def closeConn_f.simps put_room_def
      removeStates_def ws_close_def net1_def wsReadyStateOpen_def Let_def)
end
